theory Spec2Isabelle
  imports
    Complex_Main
    "HOL-Library.Word"
    "HOL-Library.AList"
    "HOL-Library.Char_ord"
    "HOL-Library.List_Lexorder"
begin

section \<open>The asset upload coordinator of \<^verbatim>\<open>app/server.py\<close>\<close>

text \<open>
  The server keeps its state in module-level dictionaries and lists and in two places on
  disk: the staging area \<^verbatim>\<open>UPLOAD_DIR/.parts/<asset_id>/\<close> and the dated output
  directories \<^verbatim>\<open>UPLOAD_DIR/<YYYY-MM-DD>/\<close>. The model passes all of it explicitly.
  Python dictionaries are association lists updated with \<open>AList.update\<close> (an existing key
  keeps its position, a new key goes to the end), so that \<^verbatim>\<open>len\<close> is \<open>length\<close>.
  Every request handler is taken as one atomic step; the clock readings and the fresh
  UUID that a handler draws are parameters of the step.
\<close>

subsection \<open>Strings of the Python runtime\<close>

type_synonym bytes = "8 word list"

definition digit_char :: "nat \<Rightarrow> char" where
  "digit_char d = char_of (48 + d)"

text \<open>\<^verbatim>\<open>str(n)\<close> for a natural number: decimal digits, no leading zero.\<close>

fun dec :: "nat \<Rightarrow> string" where
  "dec n = (if n < 10 then [digit_char n] else dec (n div 10) @ [digit_char (n mod 10)])"

declare dec.simps [simp del]

text \<open>\<^verbatim>\<open>str(i)\<close> and the f-string field \<^verbatim>\<open>{i}\<close> for an integer.\<close>

definition py_str :: "int \<Rightarrow> string" where
  "py_str i = (if i < 0 then CHR ''-'' # dec (nat (- i)) else dec (nat i))"

definition zfill :: "nat \<Rightarrow> string \<Rightarrow> string" where
  "zfill w s = replicate (w - length s) CHR ''0'' @ s"

text \<open>
  The format \<^verbatim>\<open>f"{part:06d}"\<close>: zero padding to a total width of six, the sign
  counted in the width and written before the zeros; longer numbers are not cut.
\<close>

definition fmt_06d :: "int \<Rightarrow> string" where
  "fmt_06d i = (if i < 0 then CHR ''-'' # zfill 5 (dec (nat (- i))) else zfill 6 (dec (nat i)))"

subsection \<open>The part number of a request\<close>

text \<open>
  A Python \<^verbatim>\<open>str\<close> as the list of its Unicode code points (the values of
  \<^verbatim>\<open>ord\<close>); \<open>ascii\<close> writes one from ASCII text.
\<close>

type_synonym ustring = "int list"

definition ascii :: "string \<Rightarrow> ustring" where
  "ascii s = map of_char s"

text \<open>
  The characters \<^verbatim>\<open>int()\<close> skips at both ends of a string. Of the ASCII characters
  these are the six of C's \<^verbatim>\<open>isspace\<close> (tab, line feed, vertical tab, form feed,
  carriage return, space): the separators U+001C to U+001F are not skipped. Beyond ASCII
  they are the Unicode whitespace characters U+0085, U+00A0, U+1680, U+2000 to U+200A,
  U+2028, U+2029, U+202F, U+205F and U+3000, which CPython turns into spaces before it
  parses.
\<close>

definition int_space :: "int \<Rightarrow> bool" where
  "int_space c = ((9 \<le> c \<and> c \<le> 13) \<or> c = 32 \<or> c = 133 \<or> c = 160 \<or> c = 5760
      \<or> (8192 \<le> c \<and> c \<le> 8202) \<or> c = 8232 \<or> c = 8233 \<or> c = 8239 \<or> c = 8287 \<or> c = 12288)"

text \<open>
  The decimal digits \<^verbatim>\<open>int()\<close> reads: the characters of category Nd. They come in
  runs of ten consecutive code points with the values 0 to 9; the list holds the first
  code point of every run (Unicode 14.0, the database of CPython 3.11), from the ASCII
  digits at 48 to the segmented digits at U+1FBF0. A later database adds runs for new
  scripts; the statements about the handlers below hold for every such list, only the
  evaluations at non-ASCII digits read this one.
\<close>

definition decimal_blocks :: "int list" where
  "decimal_blocks =
     [48, 1632, 1776, 1984, 2406, 2534, 2662, 2790, 2918, 3046, 3174, 3302, 3430, 3558, 3664,
      3792, 3872, 4160, 4240, 6112, 6160, 6470, 6608, 6784, 6800, 6992, 7088, 7232, 7248,
      42528, 43216, 43264, 43472, 43504, 43600, 44016, 65296, 66720, 68912, 69734, 69872,
      69942, 70096, 70384, 70736, 70864, 71248, 71360, 71472, 71904, 72016, 72784, 73040,
      73120, 92768, 92864, 93008, 120782, 120792, 120802, 120812, 120822, 123200, 123632,
      125264, 130032]"

definition decimal_value :: "int \<Rightarrow> nat option" where
  "decimal_value c = (case filter (\<lambda>b. b \<le> c \<and> c < b + 10) decimal_blocks of
                        [] \<Rightarrow> None
                      | b # bs \<Rightarrow> Some (nat (c - b)))"

text \<open>
  The digits of an integer literal as \<^verbatim>\<open>int()\<close> reads them: one underscore (code
  point 95) is allowed between two digits.
\<close>

fun digits_from :: "nat \<Rightarrow> ustring \<Rightarrow> nat option" where
  "digits_from acc [] = Some acc"
| "digits_from acc [c] = (case decimal_value c of None \<Rightarrow> None | Some v \<Rightarrow> Some (acc * 10 + v))"
| "digits_from acc (c # d # cs) =
     (case decimal_value c of
        Some v \<Rightarrow> digits_from (acc * 10 + v) (d # cs)
      | None \<Rightarrow>
          if c = 95 then (case decimal_value d of
                            None \<Rightarrow> None
                          | Some w \<Rightarrow> digits_from (acc * 10 + w) cs)
          else None)"

text \<open>
  The limit \<^verbatim>\<open>sys.int_max_str_digits\<close>, which the server leaves at its default: a
  literal of more digits is refused, leading zeros counted, underscores not.
\<close>

definition max_str_digits :: nat where
  "max_str_digits = 4300"

definition parse_nat :: "ustring \<Rightarrow> nat option" where
  "parse_nat s =
     (if max_str_digits < length (filter (\<lambda>c. decimal_value c \<noteq> None) s) then None
      else (case s of
              [] \<Rightarrow> None
            | c # cs \<Rightarrow> (case decimal_value c of None \<Rightarrow> None | Some v \<Rightarrow> digits_from v cs)))"

definition strip :: "ustring \<Rightarrow> ustring" where
  "strip s = rev (dropWhile int_space (rev (dropWhile int_space s)))"

text \<open>
  \<^verbatim>\<open>int(s)\<close> for a string \<open>s\<close>: whitespace at both ends, an optional sign (45 is the
  minus, 43 the plus), then the digits. \<open>None\<close> is the \<^verbatim>\<open>ValueError\<close>.
\<close>

definition py_int :: "ustring \<Rightarrow> int option" where
  "py_int s = (case strip s of
       [] \<Rightarrow> None
     | c # cs \<Rightarrow>
         if c = 45 then map_option (\<lambda>n. - int n) (parse_nat cs)
         else if c = 43 then map_option int (parse_nat cs)
         else map_option int (parse_nat (c # cs)))"

text \<open>
  \<^verbatim>\<open>int(request.query_params.get("part", 1))\<close>: a missing parameter is the
  integer 1.
\<close>

definition part_param :: "ustring option \<Rightarrow> int option" where
  "part_param q = (case q of None \<Rightarrow> Some 1 | Some s \<Rightarrow> py_int s)"

subsection \<open>Path names (\<^verbatim>\<open>pathlib\<close>, POSIX flavour)\<close>

fun split_on :: "char \<Rightarrow> string \<Rightarrow> string list" where
  "split_on sep [] = [[]]"
| "split_on sep (c # cs) =
     (if c = sep then [] # split_on sep cs
      else (case split_on sep cs of [] \<Rightarrow> [[c]] | p # ps \<Rightarrow> (c # p) # ps))"

text \<open>\<^verbatim>\<open>Path(s).name\<close>: the last component, empty and \<^verbatim>\<open>.\<close> components dropped.\<close>

definition path_name :: "string \<Rightarrow> string" where
  "path_name s = (case filter (\<lambda>p. p \<noteq> [] \<and> p \<noteq> ''.'') (split_on CHR ''/'' s) of
                    [] \<Rightarrow> []
                  | p # ps \<Rightarrow> last (p # ps))"

fun rfind :: "char \<Rightarrow> string \<Rightarrow> nat option" where
  "rfind c [] = None"
| "rfind c (x # xs) =
     (case rfind c xs of Some i \<Rightarrow> Some (Suc i)
      | None \<Rightarrow> if x = c then Some 0 else None)"

text \<open>
  \<^verbatim>\<open>Path.suffix\<close> and \<^verbatim>\<open>Path.stem\<close>: the name is cut at its last dot when that
  dot is neither the first nor the last character.
\<close>

definition path_suffix :: "string \<Rightarrow> string" where
  "path_suffix nm = (case rfind CHR ''.'' nm of
       Some i \<Rightarrow> if 0 < i \<and> i < length nm - 1 then drop i nm else []
     | None \<Rightarrow> [])"

definition path_stem :: "string \<Rightarrow> string" where
  "path_stem nm = (case rfind CHR ''.'' nm of
       Some i \<Rightarrow> if 0 < i \<and> i < length nm - 1 then take i nm else nm
     | None \<Rightarrow> nm)"

subsection \<open>State\<close>

record asset =
  aid :: string
  name :: string
  filesize :: "int option"
  filetype :: string
  num_parts :: int
  parts_received :: "(int \<times> nat) list"
  is_realtime :: bool
  complete :: bool
  created_at :: string
  next_realtime_part :: "int option"

record log_entry =
  log_name :: string
  log_size :: nat
  log_directory :: string
  log_type :: string
  log_timestamp :: string

text \<open>
  \<open>parts_store\<close> is \<^verbatim>\<open>UPLOAD_DIR/.parts\<close>: one directory per asset id, each a
  listing of file name and content. \<open>uploads\<close> holds the regular files of the dated
  output directories, keyed by directory and file name. Of the two authentication tables
  only the creation time of each entry is kept, which is all \<^verbatim>\<open>_prune_state\<close> reads.
\<close>

record state =
  assets :: "(string \<times> asset) list"
  upload_log :: "log_entry list"
  device_codes :: "(string \<times> string) list"
  tokens :: "(string \<times> string) list"
  parts_store :: "(string \<times> (string \<times> bytes) list) list"
  uploads :: "((string \<times> string) \<times> bytes) list"

datatype py_error = KeyError

record create_body =
  b_name :: "string option"
  b_filesize :: "int option"
  b_filetype :: "string option"
  b_is_realtime_upload :: "bool option"

record create_response =
  r_id :: string
  r_name :: string
  r_filesize :: "int option"
  r_filetype :: string
  r_upload_urls :: "string list"
  r_is_realtime_upload :: bool

datatype response =
    Bare nat
  | JsonError nat string
  | JsonUrls "string list"
  | JsonAsset create_response

subsection \<open>Asset management\<close>

definition chunk_size :: int where
  "chunk_size = 25 * 1024 * 1024"

definition upload_url :: "string \<Rightarrow> int \<Rightarrow> string" where
  "upload_url asset_id p = ''https://api.frame.io/upload/'' @ asset_id @ ''?part='' @ py_str p"

text \<open>\<^verbatim>\<open>filesize and not is_realtime\<close>: a missing size and the size 0 are both false.\<close>

definition calc_num_parts :: "int option \<Rightarrow> bool \<Rightarrow> int" where
  "calc_num_parts fsz rt =
     (case fsz of
        None \<Rightarrow> 1
      | Some s \<Rightarrow>
          if s \<noteq> 0 \<and> \<not> rt then min 4000 (max 1 ((s + chunk_size - 1) div chunk_size))
          else 1)"

definition create_asset :: "state \<Rightarrow> create_body \<Rightarrow> string \<Rightarrow> string \<Rightarrow> response \<times> state" where
  "create_asset st body asset_id now =
     (let fallback = ''unknown_'' @ asset_id;
          nm0 = path_name (case b_name body of None \<Rightarrow> fallback | Some s \<Rightarrow> s);
          nm = (if nm0 = [] then fallback else nm0);
          fsz = b_filesize body;
          ftype = (case b_filetype body of None \<Rightarrow> ''application/octet-stream'' | Some t \<Rightarrow> t);
          rt = (case b_is_realtime_upload body of None \<Rightarrow> False | Some b \<Rightarrow> b);
          n = calc_num_parts fsz rt;
          urls = map (\<lambda>i. upload_url asset_id (i + 1)) [0 .. n - 1];
          a = \<lparr>aid = asset_id, name = nm, filesize = fsz, filetype = ftype, num_parts = n,
               parts_received = [], is_realtime = rt, complete = False, created_at = now,
               next_realtime_part = None\<rparr>
      in (JsonAsset \<lparr>r_id = asset_id, r_name = nm, r_filesize = fsz, r_filetype = ftype,
                     r_upload_urls = urls, r_is_realtime_upload = rt\<rparr>,
          st\<lparr>assets := AList.update asset_id a (assets st)\<rparr>))"

definition create_realtime_parts :: "state \<Rightarrow> string \<Rightarrow> response \<times> state" where
  "create_realtime_parts st asset_id =
     (case map_of (assets st) asset_id of
        None \<Rightarrow> (JsonError 404 ''asset not found'', st)
      | Some a \<Rightarrow>
          let next_part = (case next_realtime_part a of None \<Rightarrow> num_parts a + 1 | Some p \<Rightarrow> p);
              batch = 5;
              urls = map (\<lambda>i. upload_url asset_id (next_part + i)) [0 .. batch - 1];
              a' = a\<lparr>next_realtime_part := Some (next_part + batch),
                     num_parts := next_part + batch - 1\<rparr>
          in (JsonUrls urls, st\<lparr>assets := AList.update asset_id a' (assets st)\<rparr>))"

subsection \<open>Assembly\<close>

text \<open>
  \<^verbatim>\<open>output_path.exists()\<close> inside an output directory: a regular file of that name, or
  the name \<^verbatim>\<open>..\<close>, which always resolves to the upload root.
\<close>

definition taken :: "string list \<Rightarrow> string \<Rightarrow> bool" where
  "taken names nm = (nm = ''..'' \<or> nm \<in> set names)"

definition candidate :: "string \<Rightarrow> string \<Rightarrow> nat \<Rightarrow> string" where
  "candidate stem suffix counter = stem @ ''_'' @ dec counter @ suffix"

text \<open>
  The loop of \<^verbatim>\<open>_assemble_file\<close> that looks for a free name:
  \<^verbatim>\<open>while output_path.exists(): output_path = output_dir / f"{stem}_{counter}{suffix}"; counter += 1\<close>.
  It ends because the directory holds finitely many names and the candidates are all
  different; the termination proof comes with the facts about decimal strings.
\<close>

function resolve_loop :: "string list \<Rightarrow> string \<Rightarrow> string \<Rightarrow> string \<Rightarrow> nat \<Rightarrow> string" where
  "resolve_loop names stem suffix output_path counter =
     (if taken names output_path
      then resolve_loop names stem suffix (candidate stem suffix counter) (counter + 1)
      else output_path)"
  by pat_completeness auto

text \<open>Lines 467 to 474 of \<^verbatim>\<open>_assemble_file\<close>: the name of the output file.\<close>

definition resolve_output :: "string list \<Rightarrow> string \<Rightarrow> string" where
  "resolve_output names nm =
     (if taken names nm then resolve_loop names (path_stem nm) (path_suffix nm) nm 1 else nm)"

definition names_in :: "state \<Rightarrow> string \<Rightarrow> string list" where
  "names_in st dir = map (\<lambda>(k, c). snd k) (filter (\<lambda>(k, c). fst k = dir) (uploads st))"

text \<open>\<^verbatim>\<open>while len(upload_log) > 500: upload_log.pop()\<close>\<close>

function trim_log :: "log_entry list \<Rightarrow> log_entry list" where
  "trim_log xs = (if 500 < length xs then trim_log (butlast xs) else xs)"
  by pat_completeness auto

termination
  by (relation "measure length") auto

text \<open>
  The tail of \<^verbatim>\<open>_prune_state\<close>: an authentication table of more than 100 entries
  keeps the 100 most recently created ones.
\<close>

definition prune_auth :: "(string \<times> string) list \<Rightarrow> (string \<times> string) list" where
  "prune_auth tbl =
     (if 100 < length tbl
      then (let oldest = sort_key (\<lambda>k. case map_of tbl k of Some t \<Rightarrow> t | None \<Rightarrow> []) (map fst tbl)
            in fold AList.delete (take (length oldest - 100) oldest) tbl)
      else tbl)"

definition prune_state :: "state \<Rightarrow> state" where
  "prune_state st =
     (let completed = map fst (filter (\<lambda>(k, v). complete v) (assets st))
      in st\<lparr>assets := fold AList.delete completed (assets st),
             device_codes := prune_auth (device_codes st),
             tokens := prune_auth (tokens st)\<rparr>)"

text \<open>
  \<^verbatim>\<open>_assemble_file\<close>. \<open>today\<close> is the local date the function reads for the output
  directory, \<open>now\<close> the UTC time it stamps the history entry with. \<open>Inl KeyError\<close> is
  the exception of \<^verbatim>\<open>assets[asset_id]\<close> on an id that is not registered.
\<close>

definition assemble_file :: "state \<Rightarrow> string \<Rightarrow> string \<Rightarrow> string \<Rightarrow> py_error + state" where
  "assemble_file st asset_id today now =
     (case map_of (assets st) asset_id of
        None \<Rightarrow> Inl KeyError
      | Some asset \<Rightarrow>
          if complete asset then Inr st
          else (case map_of (parts_store st) asset_id of
             None \<Rightarrow> Inr st
           | Some parts_dir \<Rightarrow>
               let output_name = resolve_output (names_in st today) (name asset);
                   part_files = sort_key fst parts_dir;
                   content = concat (map snd part_files);
                   file_size = length content;
                   entry = \<lparr>log_name = output_name, log_size = file_size, log_directory = today,
                            log_type = filetype asset, log_timestamp = now\<rparr>
               in Inr (prune_state
                    (st\<lparr>uploads := AList.update (today, output_name) content (uploads st),
                        parts_store := AList.delete asset_id (parts_store st),
                        assets := AList.update asset_id (asset\<lparr>complete := True\<rparr>) (assets st),
                        upload_log := trim_log (entry # upload_log st)\<rparr>))))"

subsection \<open>File upload\<close>

text \<open>
  The listing of \<^verbatim>\<open>UPLOAD_DIR/.parts/<asset_id>\<close> after
  \<^verbatim>\<open>parts_dir.mkdir(parents=True, exist_ok=True)\<close>: empty when the directory was not
  there.
\<close>

definition staged :: "state \<Rightarrow> string \<Rightarrow> (string \<times> bytes) list" where
  "staged st asset_id = (case map_of (parts_store st) asset_id of None \<Rightarrow> [] | Some d \<Rightarrow> d)"

text \<open>
  \<^verbatim>\<open>upload_part\<close>: \<open>q\<close> is the query parameter \<^verbatim>\<open>part\<close>, \<open>body\<close> the chunks of
  the request stream. An exception out of \<^verbatim>\<open>_assemble_file\<close> leaves the handler
  after the part was staged and recorded; the framework answers 500.
\<close>

definition upload_part ::
  "state \<Rightarrow> string \<Rightarrow> ustring option \<Rightarrow> bytes list \<Rightarrow> string \<Rightarrow> string \<Rightarrow> response \<times> state" where
  "upload_part st asset_id q body today now =
     (case part_param q of
        None \<Rightarrow> (Bare 400, st)
      | Some part \<Rightarrow>
         (case map_of (assets st) asset_id of
            None \<Rightarrow> (Bare 404, st)
          | Some asset \<Rightarrow>
              let parts_dir = staged st asset_id;
                  part_path = fmt_06d part;
                  written = concat body;
                  size = sum_list (map length body);
                  asset' = asset\<lparr>parts_received := AList.update part size (parts_received asset)\<rparr>;
                  st1 = st\<lparr>parts_store :=
                             AList.update asset_id (AList.update part_path written parts_dir) (parts_store st),
                           assets := AList.update asset_id asset' (assets st)\<rparr>
              in if \<not> is_realtime asset' \<and> num_parts asset' \<le> int (length (parts_received asset'))
                 then (case assemble_file st1 asset_id today now of
                         Inl e \<Rightarrow> (Bare 500, st1)
                       | Inr st2 \<Rightarrow> (Bare 200, st2))
                 else (Bare 200, st1)))"

definition complete_realtime_upload :: "state \<Rightarrow> string \<Rightarrow> string \<Rightarrow> string \<Rightarrow> response \<times> state" where
  "complete_realtime_upload st asset_id today now =
     (case map_of (assets st) asset_id of
        None \<Rightarrow> (Bare 200, st)
      | Some asset \<Rightarrow>
          let asset' = asset\<lparr>num_parts := int (length (parts_received asset))\<rparr>;
              st1 = st\<lparr>assets := AList.update asset_id asset' (assets st)\<rparr>
          in (case assemble_file st1 asset_id today now of
                Inl e \<Rightarrow> (Bare 500, st1)
              | Inr st2 \<Rightarrow> (Bare 200, st2)))"

subsection \<open>Startup scan\<close>

text \<open>
  One entry of the walk \<^verbatim>\<open>UPLOAD_DIR.rglob("*")\<close>: the path components below the
  upload root, whether it is a regular file, and its size and modification time (in
  ISO format) when \<^verbatim>\<open>stat\<close> succeeds.
\<close>

record walk_item =
  w_parts :: "string list"
  w_is_file :: bool
  w_stat :: "(nat \<times> string) option"

definition join_path :: "string list \<Rightarrow> string" where
  "join_path ps = (case ps of [] \<Rightarrow> ''.'' | p # qs \<Rightarrow> foldl (\<lambda>a b. a @ ''/'' @ b) p qs)"

definition scan_entry :: "walk_item \<Rightarrow> log_entry list" where
  "scan_entry f =
     (case w_parts f of
        [] \<Rightarrow> []
      | p # ps \<Rightarrow>
          let nm = last (p # ps) in
          if w_is_file f \<and> \<not> (nm \<noteq> [] \<and> hd nm = CHR ''.'') \<and> ''.parts'' \<notin> set (p # ps)
          then (case w_stat f of
                  None \<Rightarrow> []
                | Some (sz, mtime) \<Rightarrow>
                    [\<lparr>log_name = nm, log_size = sz, log_directory = join_path (butlast (p # ps)),
                      log_type = [], log_timestamp = mtime\<rparr>])
          else [])"

text \<open>
  \<^verbatim>\<open>_scan_existing_uploads\<close>; \<open>None\<close> is a missing upload root. Python's sort with
  \<^verbatim>\<open>reverse=True\<close> keeps equal keys in their original order.
\<close>

definition scan_existing_uploads :: "state \<Rightarrow> walk_item list option \<Rightarrow> state" where
  "scan_existing_uploads st walk =
     (case walk of
        None \<Rightarrow> st
      | Some items \<Rightarrow>
          let files = concat (map scan_entry items);
              sorted_files = rev (sort_key log_timestamp (rev files))
          in st\<lparr>upload_log := upload_log st @ take 500 sorted_files\<rparr>)"

subsection \<open>Requests\<close>

datatype request =
    CreateAsset create_body string string
  | RealtimeParts string
  | UploadPart string "ustring option" "bytes list" string string
  | CompleteUpload string string string

fun step :: "state \<Rightarrow> request \<Rightarrow> response \<times> state" where
  "step st (CreateAsset body asset_id now) = create_asset st body asset_id now"
| "step st (RealtimeParts asset_id) = create_realtime_parts st asset_id"
| "step st (UploadPart asset_id q body today now) = upload_part st asset_id q body today now"
| "step st (CompleteUpload asset_id today now) = complete_realtime_upload st asset_id today now"

fun run :: "state \<Rightarrow> request list \<Rightarrow> state" where
  "run st [] = st"
| "run st (r # rs) = run (snd (step st r)) rs"

definition initial_state :: state where
  "initial_state = \<lparr>assets = [], upload_log = [], device_codes = [], tokens = [],
                     parts_store = [], uploads = []\<rparr>"

section \<open>Notions used to state the properties\<close>

subsection \<open>Runs\<close>

text \<open>
  The responses of a run of requests, the upload URLs a response carries, and the
  \<open>num_parts\<close> field of a registered asset.
\<close>

fun responses :: "state \<Rightarrow> request list \<Rightarrow> response list" where
  "responses st [] = []"
| "responses st (r # rs) = fst (step st r) # responses (snd (step st r)) rs"

definition urls_of :: "response \<Rightarrow> string list" where
  "urls_of resp = (case resp of JsonUrls us \<Rightarrow> us | JsonAsset r \<Rightarrow> r_upload_urls r | _ \<Rightarrow> [])"

definition expected_parts :: "state \<Rightarrow> string \<Rightarrow> int option" where
  "expected_parts st asset_id = map_option num_parts (map_of (assets st) asset_id)"

subsection \<open>Realtime sessions\<close>

text \<open>
  A session request for an asset is an extension request or a part upload addressed to
  it. \<open>cursor_ok\<close> says that the extension cursor \<^verbatim>\<open>_next_realtime_part\<close>, once set,
  is one past \<open>num_parts\<close>.
\<close>

fun is_extension :: "request \<Rightarrow> bool" where
  "is_extension (RealtimeParts i) = True"
| "is_extension _ = False"

fun session_request :: "string \<Rightarrow> request \<Rightarrow> bool" where
  "session_request asset_id (RealtimeParts i) = (i = asset_id)"
| "session_request asset_id (UploadPart i q body today now) = (i = asset_id)"
| "session_request asset_id _ = False"

definition cursor_ok :: "asset \<Rightarrow> bool" where
  "cursor_ok a = (case next_realtime_part a of None \<Rightarrow> True | Some p \<Rightarrow> p = num_parts a + 1)"

subsection \<open>Single uploads\<close>

text \<open>
  A single upload is the life of a one-part batch asset: the creation request and the
  upload of its only part, with the identifier and the clock readings the two handlers
  draw. \<open>one_part\<close> says that the creation is not realtime, that the declared size
  gives one part, and that the upload carries a part number (\<open>part_param\<close> is not
  \<open>None\<close>).
\<close>

record single_upload =
  su_body :: create_body
  su_id :: string
  su_created :: string
  su_part :: "ustring option"
  su_chunks :: "bytes list"
  su_today :: string
  su_now :: string

definition requests_of :: "single_upload \<Rightarrow> request list" where
  "requests_of u = [CreateAsset (su_body u) (su_id u) (su_created u),
                    UploadPart (su_id u) (su_part u) (su_chunks u) (su_today u) (su_now u)]"

definition one_part :: "single_upload \<Rightarrow> bool" where
  "one_part u = (b_is_realtime_upload (su_body u) \<noteq> Some True
       \<and> calc_num_parts (b_filesize (su_body u)) False = 1
       \<and> part_param (su_part u) \<noteq> None)"

subsection \<open>Assemblies of an asset\<close>

text \<open>
  A request is addressed to an asset when it is a part upload or a completion signal for
  its id: these are the two handlers that call \<^verbatim>\<open>_assemble_file\<close>. \<open>assemblies\<close>
  counts the requests of a run that are addressed to the asset and write an output file.
  A step is quiet when it leaves output files and history alone; it is an assembled step
  when it adds exactly one output file and puts one entry at the front of the history.
  \<open>all_incomplete\<close>: no entry of the registry has its complete flag set.
\<close>

fun addressed :: "string \<Rightarrow> request \<Rightarrow> bool" where
  "addressed asset_id (UploadPart i q body today now) = (i = asset_id)"
| "addressed asset_id (CompleteUpload i today now) = (i = asset_id)"
| "addressed asset_id _ = False"

fun creates :: "string \<Rightarrow> request \<Rightarrow> bool" where
  "creates asset_id (CreateAsset body i now) = (i = asset_id)"
| "creates asset_id _ = False"

fun assemblies :: "state \<Rightarrow> request list \<Rightarrow> string \<Rightarrow> nat" where
  "assemblies st [] asset_id = 0"
| "assemblies st (r # rs) asset_id =
     (if addressed asset_id r \<and> uploads (snd (step st r)) \<noteq> uploads st then 1 else 0)
       + assemblies (snd (step st r)) rs asset_id"

definition assembled_step :: "state \<Rightarrow> state \<Rightarrow> bool" where
  "assembled_step st st' = (\<exists>f e. uploads st' = uploads st @ [f]
       \<and> upload_log st' = take 500 (e # upload_log st))"

definition quiet_step :: "state \<Rightarrow> state \<Rightarrow> bool" where
  "quiet_step st st' = (uploads st' = uploads st \<and> upload_log st' = upload_log st)"

definition all_incomplete :: "state \<Rightarrow> bool" where
  "all_incomplete st = list_all (\<lambda>(k, a). \<not> complete a) (assets st)"

subsection \<open>Deliveries of parts\<close>

text \<open>
  A delivery for an asset is a part upload addressed to it whose part number
  \<^verbatim>\<open>int()\<close> can read (\<open>part_param\<close> is not \<open>None\<close>);
  \<open>part_no\<close> and \<open>body_of\<close> are its number and its bytes. \<open>last_body rs i\<close> is the
  body of the most recent delivery of part \<open>i\<close> in \<open>rs\<close>. \<open>stage\<close> and
  \<open>record_part\<close> are what a delivery does to the staging directory and to
  \<open>parts_received\<close>.
\<close>

fun part_no :: "request \<Rightarrow> int" where
  "part_no (UploadPart i q body today now) = (case part_param q of None \<Rightarrow> 0 | Some p \<Rightarrow> p)"
| "part_no _ = 0"

fun body_of :: "request \<Rightarrow> bytes" where
  "body_of (UploadPart i q body today now) = concat body"
| "body_of _ = []"

fun is_delivery :: "string \<Rightarrow> request \<Rightarrow> bool" where
  "is_delivery asset_id (UploadPart i q body today now) = (i = asset_id \<and> part_param q \<noteq> None)"
| "is_delivery asset_id _ = False"

definition last_body :: "request list \<Rightarrow> int \<Rightarrow> bytes" where
  "last_body rs i = (case filter (\<lambda>r. part_no r = i) (rev rs) of [] \<Rightarrow> [] | r # rs' \<Rightarrow> body_of r)"

definition stage :: "request \<Rightarrow> (string \<times> bytes) list \<Rightarrow> (string \<times> bytes) list" where
  "stage r dir = AList.update (fmt_06d (part_no r)) (body_of r) dir"

definition record_part :: "request \<Rightarrow> (int \<times> nat) list \<Rightarrow> (int \<times> nat) list" where
  "record_part r recv = AList.update (part_no r) (length (body_of r)) recv"

subsection \<open>Decimal strings\<close>

text \<open>
  The number a string of digits stands for, and the digits of a number at a fixed width.
\<close>

definition digit_val :: "char \<Rightarrow> nat" where
  "digit_val c = of_char c - 48"

definition str_val :: "string \<Rightarrow> nat" where
  "str_val s = foldl (\<lambda>a c. a * 10 + digit_val c) 0 s"

fun fixed_width :: "nat \<Rightarrow> nat \<Rightarrow> string" where
  "fixed_width 0 m = []"
| "fixed_width (Suc w) m = fixed_width w (m div 10) @ [digit_char (m mod 10)]"

section \<open>Example data\<close>

text \<open>
  A three-part clip of 60 MB, a one-part photo and a realtime video, each registered in
  the empty state; the four deliveries of the clip (parts 2, 1, 3 and 3 again) and the
  state after the first two; a photo delivered twice with different bytes; a registry
  entry with its complete flag set; a day's directory that already holds two files named
  after the clip; and the \<open>k\<close>-th of a series of one-part uploads.
\<close>

definition clip_body :: create_body where
  "clip_body = \<lparr>b_name = Some ''clip.mov'', b_filesize = Some 60000000, b_filetype = None,
                 b_is_realtime_upload = None\<rparr>"

definition clip_state :: state where
  "clip_state = snd (create_asset initial_state clip_body ''a1'' ''t0'')"

definition clip_deliveries :: "request list" where
  "clip_deliveries =
     [UploadPart ''a1'' (Some (ascii ''2'')) [[20, 21]] ''2026-01-01'' ''t1'',
      UploadPart ''a1'' (Some (ascii ''1'')) [[10], [11]] ''2026-01-01'' ''t2'',
      UploadPart ''a1'' (Some (ascii ''3'')) [[30]] ''2026-01-01'' ''t3'',
      UploadPart ''a1'' (Some (ascii ''3'')) [[30]] ''2026-01-01'' ''t4'']"

definition two_of_three :: state where
  "two_of_three = run clip_state (take 2 clip_deliveries)"

definition photo_body :: create_body where
  "photo_body = \<lparr>b_name = Some ''DCIM/photo.jpg'', b_filesize = None, b_filetype = Some ''image/jpeg'',
                  b_is_realtime_upload = Some False\<rparr>"

definition photo_state :: state where
  "photo_state = snd (create_asset initial_state photo_body ''p1'' ''t0'')"

definition photo_asset :: asset where
  "photo_asset = \<lparr>aid = ''p1'', name = ''photo.jpg'', filesize = None, filetype = ''image/jpeg'',
     num_parts = 1, parts_received = [], is_realtime = False, complete = False,
     created_at = ''t0'', next_realtime_part = None\<rparr>"

definition late_redelivery :: "request list" where
  "late_redelivery =
     [UploadPart ''p1'' (Some (ascii ''1'')) [[1, 2]] ''2026-01-01'' ''t1'',
      UploadPart ''p1'' (Some (ascii ''1'')) [[9]] ''2026-01-01'' ''t2'']"

definition done_state :: state where
  "done_state = \<lparr>assets = [(''p1'', photo_asset\<lparr>complete := True\<rparr>)], upload_log = [],
     device_codes = [], tokens = [], parts_store = [],
     uploads = [((''2026-01-01'', ''photo.jpg''), [1, 2, 3])]\<rparr>"

definition video_body :: create_body where
  "video_body = \<lparr>b_name = Some ''take.mov'', b_filesize = None, b_filetype = Some ''video/quicktime'',
                  b_is_realtime_upload = Some True\<rparr>"

definition video_state :: state where
  "video_state = snd (create_asset initial_state video_body ''v1'' ''t0'')"

definition third_clip :: asset where
  "third_clip = \<lparr>aid = ''a3'', name = ''clip.mov'', filesize = None, filetype = ''video/quicktime'',
     num_parts = 1, parts_received = [(1, 2)], is_realtime = False, complete = False,
     created_at = ''t0'', next_realtime_part = None\<rparr>"

definition collision_state :: state where
  "collision_state = \<lparr>assets = [(''a3'', third_clip)], upload_log = [], device_codes = [], tokens = [],
     parts_store = [(''a3'', [(''000001'', [5, 6])])],
     uploads = [((''2026-01-01'', ''clip.mov''), [1]), ((''2026-01-01'', ''clip_1.mov''), [2]),
                ((''2026-01-02'', ''clip_2.mov''), [3])]\<rparr>"

definition nth_upload :: "nat \<Rightarrow> single_upload" where
  "nth_upload k = \<lparr>su_body = \<lparr>b_name = Some ''IMG.jpg'', b_filesize = None, b_filetype = None,
                                b_is_realtime_upload = None\<rparr>,
                    su_id = ''asset-'' @ dec k, su_created = ''c'' @ dec k, su_part = None,
                    su_chunks = [[1]], su_today = ''2026-01-01'', su_now = ''t'' @ dec k\<rparr>"

section \<open>Decimal strings and the search for a free name\<close>

lemma digit_val_digit_char: "d < 10 \<Longrightarrow> digit_val (digit_char d) = d"
  by (simp add: digit_val_def digit_char_def)

lemma str_val_dec: "str_val (dec n) = n"
proof (induction n rule: dec.induct)
  case (1 n)
  show ?case
  proof (cases "n < 10")
    case True
    then show ?thesis
      by (simp add: dec.simps [of n] str_val_def digit_val_digit_char)
  next
    case False
    then have "str_val (dec (n div 10)) = n div 10"
      using 1 by simp
    with False show ?thesis
      by (simp add: dec.simps [of n] str_val_def digit_val_digit_char)
  qed
qed

lemma dec_inj: "dec n = dec m \<Longrightarrow> n = m"
  by (metis str_val_dec)

lemma candidate_inj: "candidate stem suffix k = candidate stem suffix l \<Longrightarrow> k = l"
  by (simp add: candidate_def dec_inj)

lemma candidate_not_dotdot: "candidate stem suffix k \<noteq> ''..''"
proof
  assume "candidate stem suffix k = ''..''"
  then have "set (candidate stem suffix k) = set ''..''"
    by simp
  then show False
    by (auto simp: candidate_def)
qed

lemma taken_candidate: "taken names (candidate stem suffix k) = (candidate stem suffix k \<in> set names)"
  by (simp add: taken_def candidate_not_dotdot)

lemma finite_taken_candidates: "finite {k. c \<le> k \<and> taken names (candidate stem suffix k)}"
proof -
  have "inj_on (candidate stem suffix) {k. c \<le> k \<and> taken names (candidate stem suffix k)}"
    by (rule inj_onI) (rule candidate_inj)
  moreover have "candidate stem suffix ` {k. c \<le> k \<and> taken names (candidate stem suffix k)} \<subseteq> set names"
    by (auto simp: taken_candidate)
  ultimately show ?thesis
    by (meson finite_imageD finite_subset finite_set)
qed

termination resolve_loop
proof (relation "measure (\<lambda>(names, stem, suffix, p, c).
          card {k. c \<le> k \<and> taken names (candidate stem suffix k)} + (if taken names p then 1 else 0))",
       goal_cases)
  case 1
  show ?case by simp
next
  case (2 names stem suffix output_path counter)
  let ?A = "\<lambda>c. {k. c \<le> k \<and> taken names (candidate stem suffix k)}"
  have fin: "finite (?A counter)"
    by (rule finite_taken_candidates)
  show ?case
  proof (cases "taken names (candidate stem suffix counter)")
    case True
    have "?A (counter + 1) = ?A counter - {counter}"
      by auto
    moreover have "counter \<in> ?A counter"
      using True by simp
    ultimately have "card (?A (counter + 1)) = card (?A counter) - 1" and "0 < card (?A counter)"
      using fin by (auto simp: card_gt_0_iff)
    then have "card (?A (counter + 1)) + 1 = card (?A counter)"
      by linarith
    with 2 True show ?thesis
      by simp
  next
    case False
    have "?A (counter + 1) = ?A counter"
      using False by (auto simp: le_Suc_eq) (metis Suc_leI le_neq_implies_less)
    with 2 False show ?thesis
      by simp
  qed
qed

declare resolve_loop.simps [simp del]

declare trim_log.simps [simp del]

section \<open>Part count at creation\<close>

lemma ceil_div: "(s + c - 1) div c = \<lceil>real_of_int s / real_of_int c\<rceil>" if c: "0 < c" for s c :: int
proof -
  have neg: "- ((- s) div c) = (if s mod c = 0 then s div c else s div c + 1)"
    using c by (simp add: zdiv_zminus1_eq_if)
  have r: "0 \<le> s mod c" "s mod c < c"
    using c by simp_all
  have "s + c - 1 = (s mod c + c - 1) + (s div c) * c"
    by (simp add: algebra_simps)
  then have "(s + c - 1) div c = (s mod c + c - 1 + (s div c) * c) div c"
    by (rule arg_cong)
  also have "\<dots> = s div c + (s mod c + c - 1) div c"
    using c by (subst div_mult_self1) simp_all
  finally have split: "(s + c - 1) div c = s div c + (s mod c + c - 1) div c" .
  have "(s mod c + c - 1) div c = (if s mod c = 0 then 0 else 1)"
  proof (cases "s mod c = 0")
    case True
    then show ?thesis using c by simp
  next
    case False
    then have pos: "1 \<le> s mod c" using r by linarith
    have "s mod c + c - 1 = (s mod c - 1) + 1 * c"
      by simp
    then have "(s mod c + c - 1) div c = ((s mod c - 1) + 1 * c) div c"
      by (rule arg_cong)
    also have "\<dots> = 1 + (s mod c - 1) div c"
      using c by (subst div_mult_self1) simp_all
    also have "(s mod c - 1) div c = 0"
      using pos r by simp
    finally show ?thesis using False by simp
  qed
  with split neg show ?thesis
    by (simp add: ceiling_divide_eq_div)
qed

lemma calc_num_parts_batch:
  "calc_num_parts (Some s) False = min 4000 (max 1 \<lceil>real_of_int s / real_of_int chunk_size\<rceil>)"
proof -
  have "0 < chunk_size" by (simp add: chunk_size_def)
  then have "(s + chunk_size - 1) div chunk_size = \<lceil>real_of_int s / real_of_int chunk_size\<rceil>"
    by (rule ceil_div)
  moreover have "s = 0 \<Longrightarrow> \<lceil>real_of_int s / real_of_int chunk_size\<rceil> = 0" by simp
  ultimately show ?thesis
    by (auto simp: calc_num_parts_def)
qed

lemma calc_num_parts_single: "fsz = None \<or> rt \<Longrightarrow> calc_num_parts fsz rt = 1"
  by (auto simp: calc_num_parts_def split: option.splits)

lemma calc_num_parts_ge1: "1 \<le> calc_num_parts fsz rt"
  by (simp add: calc_num_parts_def split: option.splits)

lemma calc_num_parts_le: "calc_num_parts fsz rt \<le> 4000"
  by (simp add: calc_num_parts_def split: option.splits)

lemma upto_shift: "map (\<lambda>i. f (i + 1)) [0 .. n - 1] = map f [1 .. n]" for n :: int
  by (rule nth_equalityI) (auto simp: add.commute)

lemma map_of_update_same: "map_of (AList.update k v al) k = Some v"
  by (simp add: update_conv')

text \<open>
  C2. The asset that \<open>create_asset\<close> registers has the size the request declared, and
  its \<open>num_parts\<close> is \<open>min 4000 (max 1 \<lceil>S / C\<rceil>)\<close> for a batch asset with declared
  size \<open>S\<close> and the chunk size \<open>C\<close> of 25 MiB, and 1 when no size is declared or the
  asset is realtime. In every case the response lists exactly \<open>num_parts\<close> upload URLs:
  those of the part numbers 1 to \<open>num_parts\<close>, in this order.
\<close>

theorem create_asset_expected_parts:
  assumes "create_asset st body asset_id now = (resp, st')"
  shows "\<exists>a r. map_of (assets st') asset_id = Some a \<and> resp = JsonAsset r
           \<and> filesize a = b_filesize body
           \<and> (\<forall>s. filesize a = Some s \<and> \<not> is_realtime a \<longrightarrow>
                  num_parts a = min 4000 (max 1 \<lceil>real_of_int s / real_of_int chunk_size\<rceil>))
           \<and> (filesize a = None \<or> is_realtime a \<longrightarrow> num_parts a = 1)
           \<and> length (r_upload_urls r) = nat (num_parts a)
           \<and> r_upload_urls r = map (upload_url asset_id) [1 .. num_parts a]"
proof -
  define rt where "rt = (case b_is_realtime_upload body of None \<Rightarrow> False | Some b \<Rightarrow> b)"
  define n where "n = calc_num_parts (b_filesize body) rt"
  obtain a where a: "map_of (assets st') asset_id = Some a" "filesize a = b_filesize body"
      "is_realtime a = rt" "num_parts a = n"
    using assms unfolding create_asset_def Let_def rt_def n_def
    by (auto simp: map_of_update_same)
  obtain r where r: "resp = JsonAsset r" "r_upload_urls r = map (upload_url asset_id) [1 .. n]"
    using assms unfolding create_asset_def Let_def rt_def n_def
    by (auto simp: upto_shift)
  have batch: "num_parts a = min 4000 (max 1 \<lceil>real_of_int s / real_of_int chunk_size\<rceil>)"
    if "filesize a = Some s" "\<not> is_realtime a" for s
    using that a calc_num_parts_batch [of s] by (simp add: n_def)
  have single: "num_parts a = 1" if "filesize a = None \<or> is_realtime a"
    using that a calc_num_parts_single [of "b_filesize body" rt] by (auto simp: n_def)
  have len: "length (r_upload_urls r) = nat (num_parts a)"
    using r a by simp
  from a r batch single len show ?thesis
    by blast
qed

theorem create_asset_expected_parts_witness:
  "\<exists>a r. map_of (assets (snd (create_asset initial_state clip_body ''a1'' ''t0''))) ''a1'' = Some a
         \<and> fst (create_asset initial_state clip_body ''a1'' ''t0'') = JsonAsset r
         \<and> filesize a = Some 60000000 \<and> \<not> is_realtime a \<and> num_parts a = 3
         \<and> r_upload_urls r = map (upload_url ''a1'') [1, 2, 3]"
proof -
  obtain a r where h: "map_of (assets (snd (create_asset initial_state clip_body ''a1'' ''t0''))) ''a1'' = Some a"
      "fst (create_asset initial_state clip_body ''a1'' ''t0'') = JsonAsset r"
      "filesize a = b_filesize clip_body"
      "\<forall>s. filesize a = Some s \<and> \<not> is_realtime a \<longrightarrow>
          num_parts a = min 4000 (max 1 \<lceil>real_of_int s / real_of_int chunk_size\<rceil>)"
      "r_upload_urls r = map (upload_url ''a1'') [1 .. num_parts a]"
    using create_asset_expected_parts [of initial_state clip_body "''a1''" "''t0''"
        "fst (create_asset initial_state clip_body ''a1'' ''t0'')"
        "snd (create_asset initial_state clip_body ''a1'' ''t0'')"]
    by auto
  have rt: "\<not> is_realtime a"
    using h(1) by (auto simp: create_asset_def clip_body_def initial_state_def Let_def)
  have sz: "filesize a = Some 60000000"
    using h(3) by (simp add: clip_body_def)
  have "num_parts a = min 4000 (max 1 \<lceil>real_of_int 60000000 / real_of_int chunk_size\<rceil>)"
    using h(4) rt sz by blast
  then have n: "num_parts a = 3"
    by (simp add: chunk_size_def)
  have "[1 .. 3] = [1, 2, 3::int]"
    by (simp add: upto_rec1)
  with h n rt sz show ?thesis
    by auto
qed

section \<open>What an assembly does\<close>

lemma map_of_fold_delete:
  "map_of (fold AList.delete ks al) k = (if k \<in> set ks then None else map_of al k)"
  by (induction ks arbitrary: al) (auto simp: delete_conv')

lemma update_fresh: "k \<notin> fst ` set al \<Longrightarrow> AList.update k v al = al @ [(k, v)]"
  by (induction al) auto

lemma trim_log_take: "trim_log xs = take 500 xs"
proof (induction xs rule: trim_log.induct)
  case (1 xs)
  show ?case
  proof (cases "500 < length xs")
    case True
    then have "trim_log xs = take 500 (butlast xs)"
      using 1 by (simp add: trim_log.simps [of xs])
    also have "\<dots> = take 500 xs"
      using True by (simp add: butlast_conv_take min_def) linarith
    finally show ?thesis .
  next
    case False
    then show ?thesis by (simp add: trim_log.simps [of xs])
  qed
qed

lemma resolve_loop_free: "\<not> taken names (resolve_loop names stem suffix p c)"
  by (induction names stem suffix p c rule: resolve_loop.induct)
     (subst resolve_loop.simps, simp)

lemma resolve_output_free: "\<not> taken names (resolve_output names nm)"
  by (simp add: resolve_output_def resolve_loop_free)

lemma names_in_iff: "nm \<in> set (names_in st dir) \<longleftrightarrow> (dir, nm) \<in> fst ` set (uploads st)"
  by (force simp: names_in_def)

lemma output_name_fresh:
  "(today, resolve_output (names_in st today) nm) \<notin> fst ` set (uploads st)"
  using resolve_output_free [of "names_in st today" nm]
  by (simp add: taken_def names_in_iff)

lemma prune_state_assets:
  "map_of (assets (prune_state st)) k =
     (if k \<in> fst ` {kv \<in> set (assets st). complete (snd kv)} then None else map_of (assets st) k)"
  by (auto simp: prune_state_def Let_def map_of_fold_delete image_iff split_def)

lemma prune_state_fields [simp]:
  "upload_log (prune_state st) = upload_log st"
  "parts_store (prune_state st) = parts_store st"
  "uploads (prune_state st) = uploads st"
  by (simp_all add: prune_state_def Let_def)

lemma assemble_file_effect:
  assumes "map_of (assets st) asset_id = Some a" "\<not> complete a"
      "map_of (parts_store st) asset_id = Some parts_dir"
  obtains st' where "assemble_file st asset_id today now = Inr st'"
    "uploads st' = uploads st @ [((today, resolve_output (names_in st today) (name a)),
        concat (map snd (sort_key fst parts_dir)))]"
    "parts_store st' = AList.delete asset_id (parts_store st)"
    "upload_log st' = take 500 (\<lparr>log_name = resolve_output (names_in st today) (name a),
        log_size = length (concat (map snd (sort_key fst parts_dir))), log_directory = today,
        log_type = filetype a, log_timestamp = now\<rparr> # upload_log st)"
    "map_of (assets st') asset_id = None"
    "\<And>k. map_of (assets st') k \<noteq> None \<Longrightarrow> map_of (assets st') k = map_of (assets st) k"
proof -
  let ?nm = "resolve_output (names_in st today) (name a)"
  let ?content = "concat (map snd (sort_key fst parts_dir))"
  let ?st' = "prune_state
        (st\<lparr>uploads := AList.update (today, ?nm) ?content (uploads st),
            parts_store := AList.delete asset_id (parts_store st),
            assets := AList.update asset_id (a\<lparr>complete := True\<rparr>) (assets st),
            upload_log := trim_log (\<lparr>log_name = ?nm, log_size = length ?content,
              log_directory = today, log_type = filetype a, log_timestamp = now\<rparr> # upload_log st)\<rparr>)"
  have 1: "assemble_file st asset_id today now = Inr ?st'"
    using assms by (simp add: assemble_file_def Let_def)
  have "(asset_id, a\<lparr>complete := True\<rparr>) \<in> set (AList.update asset_id (a\<lparr>complete := True\<rparr>) (assets st))"
    using assms(1) by (metis map_of_SomeD update_conv' fun_upd_same)
  then have 2: "map_of (assets ?st') asset_id = None"
    by (force simp: prune_state_assets)
  have 3: "map_of (assets ?st') k = map_of (assets st) k" if "map_of (assets ?st') k \<noteq> None" for k
  proof (cases "k = asset_id")
    case True
    with 2 that show ?thesis by simp
  next
    case False
    with that show ?thesis
      by (simp add: prune_state_assets update_conv' split: if_splits)
  qed
  have 4: "uploads ?st' = uploads st @ [((today, ?nm), ?content)]"
    by (simp add: update_fresh output_name_fresh)
  show thesis
    by (rule that [OF 1 4 _ _ 2 3]) (simp_all add: trim_log_take)
qed

section \<open>The integer of a part parameter\<close>

text \<open>
  What \<open>py_int\<close> makes of some strings. The separator U+001F is not skipped, so
  \<^verbatim>\<open>"\x1f1"\<close> is no integer; the no-break space U+00A0 and the next-line
  character U+0085 are skipped; digits from other scripts (ARABIC-INDIC DIGIT THREE, the
  fullwidth and the mathematical digits) count; underscores stand between digits only.
\<close>

lemma py_int_examples:
  "py_int (ascii ''12'') = Some 12"
  "py_int (ascii '' -007 '') = Some (- 7)"
  "py_int (ascii ''+5'') = Some 5"
  "py_int (ascii ''1_000'') = Some 1000"
  "py_int (ascii ''1__0'') = None"
  "py_int (ascii ''_1'') = None"
  "py_int (ascii ''1_'') = None"
  "py_int (ascii ''+ 1'') = None"
  "py_int (ascii ''1.0'') = None"
  "py_int [] = None"
  "py_int [31, 49] = None"
  "py_int [49, 28] = None"
  "py_int [160, 49] = Some 1"
  "py_int [49, 133] = Some 1"
  "py_int [8232, 45, 49, 12288] = Some (- 1)"
  "py_int [1635] = Some 3"
  "py_int [65297, 120784] = Some 12"
  by code_simp+

lemma part_param_2: "part_param (Some (ascii ''2'')) = Some 2"
  by code_simp

lemma part_param_separator: "part_param (Some [31, 49]) = None"
  by code_simp

text \<open>
  The limit on the number of digits. No whitespace character and no sign is a digit, so
  the digits of a string are those of its stripped, unsigned rest, and a string of more
  than 4300 digits is no integer. A string of \<open>n\<close> digits \<^verbatim>\<open>1\<close> is an integer
  exactly for \<open>n\<close> from 1 to 4300.
\<close>

lemma parse_nat_limit:
  "max_str_digits < length (filter (\<lambda>c. decimal_value c \<noteq> None) s) \<Longrightarrow> parse_nat s = None"
  by (simp add: parse_nat_def)

lemma int_space_iff:
  "int_space c = (c \<in> set [9, 10, 11, 12, 13, 32, 133, 160, 5760, 8192, 8193, 8194, 8195, 8196,
     8197, 8198, 8199, 8200, 8201, 8202, 8232, 8233, 8239, 8287, 12288])"
  unfolding int_space_def by (simp only: list.set insert_iff empty_iff) arith

lemma int_spaces_not_decimal:
  "list_all (\<lambda>c. decimal_value c = None) [9, 10, 11, 12, 13, 32, 133, 160, 5760, 8192, 8193, 8194,
     8195, 8196, 8197, 8198, 8199, 8200, 8201, 8202, 8232, 8233, 8239, 8287, 12288]"
  by code_simp

lemma int_space_not_decimal: "int_space c \<Longrightarrow> decimal_value c = None"
  using int_spaces_not_decimal unfolding int_space_iff list_all_iff by blast

lemma sign_not_decimal: "decimal_value 45 = None" "decimal_value 43 = None"
  by (simp_all add: decimal_value_def decimal_blocks_def)

lemma filter_dropWhile: "(\<And>x. Q x \<Longrightarrow> \<not> P x) \<Longrightarrow> filter P (dropWhile Q xs) = filter P xs"
  by (induction xs) auto

lemma digits_of_strip:
  "length (filter (\<lambda>c. decimal_value c \<noteq> None) (strip s))
     = length (filter (\<lambda>c. decimal_value c \<noteq> None) s)"
proof -
  have "filter (\<lambda>c. decimal_value c \<noteq> None) (dropWhile int_space xs)
      = filter (\<lambda>c. decimal_value c \<noteq> None) xs" for xs
    by (rule filter_dropWhile) (simp add: int_space_not_decimal)
  then show ?thesis
    by (simp add: strip_def flip: rev_filter)
qed

lemma py_int_limit:
  assumes "max_str_digits < length (filter (\<lambda>c. decimal_value c \<noteq> None) s)"
  shows "py_int s = None"
proof (cases "strip s")
  case Nil
  then show ?thesis by (simp add: py_int_def)
next
  case (Cons c cs)
  have n: "max_str_digits < length (filter (\<lambda>c. decimal_value c \<noteq> None) (c # cs))"
    using assms digits_of_strip [of s] Cons by simp
  then have "parse_nat (c # cs) = None"
    by (rule parse_nat_limit)
  moreover have "parse_nat cs = None" if "c = 45 \<or> c = 43"
    using that n sign_not_decimal by (intro parse_nat_limit) auto
  ultimately show ?thesis
    using Cons by (simp add: py_int_def)
qed

lemma digits_from_ones: "\<exists>v. digits_from acc (replicate n 49) = Some v"
proof (induction n arbitrary: acc)
  case 0
  show ?case by simp
next
  case (Suc n)
  have one: "decimal_value 49 = Some 1"
    by (simp add: decimal_value_def decimal_blocks_def)
  show ?case
  proof (cases n)
    case 0
    then show ?thesis by (simp add: one)
  next
    case (Suc m)
    then show ?thesis
      using Suc.IH [of "acc * 10 + 1"] by (simp add: one)
  qed
qed

lemma py_int_ones:
  "(py_int (replicate n 49) = None) = (n = 0 \<or> max_str_digits < n)"
proof (cases n)
  case 0
  then show ?thesis by (simp add: py_int_def strip_def)
next
  case (Suc m)
  have one: "decimal_value 49 = Some 1"
    by (simp add: decimal_value_def decimal_blocks_def)
  have sp: "\<not> int_space 49"
    by (simp add: int_space_def)
  have st: "strip (replicate k 49) = replicate k 49" for k
    by (simp add: strip_def sp dropWhile_replicate)
  obtain v where v: "digits_from 1 (replicate m 49) = Some v"
    using digits_from_ones by blast
  have "strip (replicate n 49) = 49 # replicate m 49"
    using st [of n] Suc by simp
  then have "py_int (replicate n 49) = map_option int (parse_nat (49 # replicate m 49))"
    by (simp add: py_int_def)
  also have "(\<dots> = None) = (max_str_digits < n)"
    using Suc v by (simp add: parse_nat_def one)
  finally show ?thesis
    using Suc by simp
qed

lemma py_int_4300: "py_int (replicate 4300 49) \<noteq> None" "py_int (replicate 4301 49) = None"
  unfolding py_int_ones max_str_digits_def by simp_all

section \<open>Requests for an asset id that is not registered\<close>

text \<open>
  C4, where it fails. The completion signal for an unknown asset id is answered 200,
  not 404.
\<close>

theorem complete_unknown_asset_counterexample:
  "map_of (assets initial_state) ''ghost'' = None
   \<and> complete_realtime_upload initial_state ''ghost'' ''2026-01-01'' ''t'' = (Bare 200, initial_state)"
  by (simp add: initial_state_def complete_realtime_upload_def)

text \<open>
  C4, amended. When the asset id is not in the registry, the realtime extension request
  answers 404; a part upload answers 400 if \<^verbatim>\<open>int()\<close> refuses its \<^verbatim>\<open>part\<close> parameter
  (the parameter is read before the registry) and 404 otherwise; the realtime completion
  signal answers 200. All three leave the state as it was. The instance that follows
  sends the three requests for an unknown id, the part upload once with the parameter
  \<^verbatim>\<open>2\<close> and once with \<^verbatim>\<open>%1F1\<close>, the separator U+001F before the digit 1.
\<close>

theorem unknown_asset_responses:
  assumes "map_of (assets st) asset_id = None"
  shows "create_realtime_parts st asset_id = (JsonError 404 ''asset not found'', st)
       \<and> upload_part st asset_id q body today now
           = (if part_param q = None then Bare 400 else Bare 404, st)
       \<and> complete_realtime_upload st asset_id today now = (Bare 200, st)"
  using assms
  by (simp add: create_realtime_parts_def upload_part_def complete_realtime_upload_def
      split: option.splits)

theorem unknown_asset_responses_witness:
  "create_realtime_parts initial_state ''ghost'' = (JsonError 404 ''asset not found'', initial_state)
   \<and> upload_part initial_state ''ghost'' (Some (ascii ''2'')) [[1, 2]] ''2026-01-01'' ''t'' = (Bare 404, initial_state)
   \<and> upload_part initial_state ''ghost'' (Some [31, 49]) [[1, 2]] ''2026-01-01'' ''t'' = (Bare 400, initial_state)
   \<and> complete_realtime_upload initial_state ''ghost'' ''2026-01-01'' ''t'' = (Bare 200, initial_state)"
proof -
  have none: "map_of (assets initial_state) ''ghost'' = None"
    by (simp add: initial_state_def)
  show ?thesis
    using unknown_asset_responses [OF none, of "Some (ascii ''2'')" "[[1, 2]]" "''2026-01-01''" "''t''"]
      unknown_asset_responses [OF none, of "Some [31, 49]" "[[1, 2]]" "''2026-01-01''" "''t''"]
      part_param_2 part_param_separator
    by simp
qed

section \<open>Part numbers\<close>

text \<open>
  C5, where it fails. The part number 0 is not a positive integer, and the upload of part
  0 to a registered asset is answered 200 with its bytes staged and counted.
\<close>

theorem upload_part_zero_counterexample:
  "part_param (Some (ascii ''0'')) = Some 0
   \<and> fst (upload_part clip_state ''a1'' (Some (ascii ''0'')) [[7]] ''2026-01-01'' ''t1'') = Bare 200
   \<and> parts_store (snd (upload_part clip_state ''a1'' (Some (ascii ''0'')) [[7]] ''2026-01-01'' ''t1''))
       = [(''a1'', [(''000000'', [7])])]
   \<and> map_option parts_received
        (map_of (assets (snd (upload_part clip_state ''a1'' (Some (ascii ''0'')) [[7]] ''2026-01-01'' ''t1''))) ''a1'')
       = Some [(0, 1)]"
  by code_simp

text \<open>
  C5, amended. A part upload is answered 400 exactly when the \<^verbatim>\<open>part\<close> parameter is
  present and \<^verbatim>\<open>int()\<close> refuses it, and then the state is unchanged: nothing is
  staged and no registry entry changes. (A missing parameter is part 1; zero and negative
  numbers are integers.) The instance that follows sends to a registered asset the
  parameters \<^verbatim>\<open>x1\<close>, \<^verbatim>\<open>%1F1\<close> (the separator U+001F before the digit 1) and a
  number of 4301 digits, which are refused, and a no-break space before the digit 1,
  which is part 1.
\<close>

theorem upload_part_malformed:
  "(fst (upload_part st asset_id q body today now) = Bare 400) = (\<exists>s. q = Some s \<and> py_int s = None)
   \<and> ((\<exists>s. q = Some s \<and> py_int s = None) \<longrightarrow> snd (upload_part st asset_id q body today now) = st)"
  by (auto simp: upload_part_def part_param_def Let_def split: option.splits sum.splits)

theorem upload_part_malformed_witness:
  "py_int (ascii ''x1'') = None
   \<and> fst (upload_part clip_state ''a1'' (Some (ascii ''x1'')) [[7]] ''2026-01-01'' ''t1'') = Bare 400
   \<and> snd (upload_part clip_state ''a1'' (Some (ascii ''x1'')) [[7]] ''2026-01-01'' ''t1'') = clip_state
   \<and> py_int [31, 49] = None
   \<and> fst (upload_part clip_state ''a1'' (Some [31, 49]) [[7]] ''2026-01-01'' ''t1'') = Bare 400
   \<and> snd (upload_part clip_state ''a1'' (Some [31, 49]) [[7]] ''2026-01-01'' ''t1'') = clip_state
   \<and> py_int (replicate 4301 49) = None
   \<and> fst (upload_part clip_state ''a1'' (Some (replicate 4301 49)) [[7]] ''2026-01-01'' ''t1'') = Bare 400
   \<and> snd (upload_part clip_state ''a1'' (Some (replicate 4301 49)) [[7]] ''2026-01-01'' ''t1'') = clip_state
   \<and> py_int [160, 49] = Some 1
   \<and> fst (upload_part clip_state ''a1'' (Some [160, 49]) [[7]] ''2026-01-01'' ''t1'') = Bare 200"
proof -
  have bad: "py_int (ascii ''x1'') = None"
    by code_simp
  then have "\<exists>s. Some (ascii ''x1'') = Some s \<and> py_int s = None"
    by simp
  with bad have x1: "py_int (ascii ''x1'') = None
     \<and> fst (upload_part clip_state ''a1'' (Some (ascii ''x1'')) [[7]] ''2026-01-01'' ''t1'') = Bare 400
     \<and> snd (upload_part clip_state ''a1'' (Some (ascii ''x1'')) [[7]] ''2026-01-01'' ''t1'') = clip_state"
    using upload_part_malformed [of clip_state "''a1''" "Some (ascii ''x1'')" "[[7]]" "''2026-01-01''" "''t1''"]
    by blast
  have sep: "py_int [31, 49] = None"
    by code_simp
  then have "\<exists>s. Some [31, 49] = Some s \<and> py_int s = None"
    by simp
  with sep have us: "py_int [31, 49] = None
     \<and> fst (upload_part clip_state ''a1'' (Some [31, 49]) [[7]] ''2026-01-01'' ''t1'') = Bare 400
     \<and> snd (upload_part clip_state ''a1'' (Some [31, 49]) [[7]] ''2026-01-01'' ''t1'') = clip_state"
    using upload_part_malformed [of clip_state "''a1''" "Some [31, 49]" "[[7]]" "''2026-01-01''" "''t1''"]
    by blast
  have long: "py_int (replicate 4301 49) = None"
    by (rule py_int_4300)
  then have "\<exists>s. Some (replicate 4301 49) = Some s \<and> py_int s = None"
    by blast
  with long have digits: "py_int (replicate 4301 49) = None
     \<and> fst (upload_part clip_state ''a1'' (Some (replicate 4301 49)) [[7]] ''2026-01-01'' ''t1'') = Bare 400
     \<and> snd (upload_part clip_state ''a1'' (Some (replicate 4301 49)) [[7]] ''2026-01-01'' ''t1'') = clip_state"
    using upload_part_malformed [of clip_state "''a1''" "Some (replicate 4301 49)" "[[7]]" "''2026-01-01''" "''t1''"]
    by blast
  have nbsp: "py_int [160, 49] = Some 1
     \<and> fst (upload_part clip_state ''a1'' (Some [160, 49]) [[7]] ''2026-01-01'' ''t1'') = Bare 200"
    by code_simp
  from x1 us digits nbsp show ?thesis
    by (intro conjI) (elim conjE, assumption)+
qed

section \<open>A part upload to a registered asset\<close>


lemma upload_part_staged:
  assumes "map_of (assets st) asset_id = Some a" "part_param q = Some p"
    and "is_realtime a \<or> int (length (AList.update p (length (concat body)) (parts_received a))) < num_parts a"
  shows "upload_part st asset_id q body today now =
     (Bare 200, st\<lparr>parts_store := AList.update asset_id
                       (AList.update (fmt_06d p) (concat body) (staged st asset_id)) (parts_store st),
                   assets := AList.update asset_id
                       (a\<lparr>parts_received := AList.update p (length (concat body)) (parts_received a)\<rparr>)
                       (assets st)\<rparr>)"
  using assms by (auto simp: upload_part_def Let_def length_concat)

lemma upload_part_assembled:
  assumes "map_of (assets st) asset_id = Some a" "part_param q = Some p" "\<not> complete a"
    and "\<not> is_realtime a" "num_parts a \<le> int (length (AList.update p (length (concat body)) (parts_received a)))"
  obtains st' where "upload_part st asset_id q body today now = (Bare 200, st')"
    "uploads st' = uploads st @ [((today, resolve_output (names_in st today) (name a)),
        concat (map snd (sort_key fst (AList.update (fmt_06d p) (concat body) (staged st asset_id)))))]"
    "map_of (parts_store st') asset_id = None"
    "\<And>k. k \<noteq> asset_id \<Longrightarrow> map_of (parts_store st') k = map_of (parts_store st) k"
    "upload_log st' = take 500 (\<lparr>log_name = resolve_output (names_in st today) (name a),
        log_size = length (concat (map snd (sort_key fst
            (AList.update (fmt_06d p) (concat body) (staged st asset_id))))),
        log_directory = today, log_type = filetype a, log_timestamp = now\<rparr> # upload_log st)"
    "map_of (assets st') asset_id = None"
    "\<And>k. map_of (assets st') k \<noteq> None \<Longrightarrow> map_of (assets st') k = map_of (assets st) k"
proof -
  let ?a' = "a\<lparr>parts_received := AList.update p (length (concat body)) (parts_received a)\<rparr>"
  let ?dir = "AList.update (fmt_06d p) (concat body) (staged st asset_id)"
  let ?st1 = "st\<lparr>parts_store := AList.update asset_id ?dir (parts_store st),
                   assets := AList.update asset_id ?a' (assets st)\<rparr>"
  have a1: "map_of (assets ?st1) asset_id = Some ?a'" "\<not> complete ?a'"
    "map_of (parts_store ?st1) asset_id = Some ?dir"
    using assms by (simp_all add: update_conv')
  obtain st' where st': "assemble_file ?st1 asset_id today now = Inr st'"
    "uploads st' = uploads ?st1 @ [((today, resolve_output (names_in ?st1 today) (name ?a')),
        concat (map snd (sort_key fst ?dir)))]"
    "parts_store st' = AList.delete asset_id (parts_store ?st1)"
    "upload_log st' = take 500 (\<lparr>log_name = resolve_output (names_in ?st1 today) (name ?a'),
        log_size = length (concat (map snd (sort_key fst ?dir))), log_directory = today,
        log_type = filetype ?a', log_timestamp = now\<rparr> # upload_log ?st1)"
    "map_of (assets st') asset_id = None"
    "\<And>k. map_of (assets st') k \<noteq> None \<Longrightarrow> map_of (assets st') k = map_of (assets ?st1) k"
    using assemble_file_effect [OF a1, of today now] by blast
  have names: "names_in ?st1 today = names_in st today"
    by (simp add: names_in_def)
  have up: "upload_part st asset_id q body today now = (Bare 200, st')"
    using assms st'(1) by (simp add: upload_part_def Let_def length_concat)
  show thesis
  proof (rule that [OF up])
    show "uploads st' = uploads st @ [((today, resolve_output (names_in st today) (name a)),
        concat (map snd (sort_key fst ?dir)))]"
      using st'(2) names by simp
    show "map_of (parts_store st') asset_id = None"
      using st'(3) by (simp add: delete_conv')
    show "map_of (parts_store st') k = map_of (parts_store st) k" if "k \<noteq> asset_id" for k
      using st'(3) that by (simp add: delete_conv' update_conv')
    show "upload_log st' = take 500 (\<lparr>log_name = resolve_output (names_in st today) (name a),
        log_size = length (concat (map snd (sort_key fst ?dir))),
        log_directory = today, log_type = filetype a, log_timestamp = now\<rparr> # upload_log st)"
      using st'(4) names by simp
    show "map_of (assets st') asset_id = None"
      by (rule st'(5))
    show "map_of (assets st') k = map_of (assets st) k" if "map_of (assets st') k \<noteq> None" for k
      using st'(6) [OF that] st'(5) that by (cases "k = asset_id") (simp_all add: update_conv')
  qed
qed



section \<open>Realtime assets\<close>

lemma upto_5: "[0 .. 5 - 1] = [0, 1, 2, 3, 4::int]"
  by (simp add: upto_rec1)

lemma upto_shift_by: "map (\<lambda>i. f (n + i)) [0 .. 4] = map f [n .. n + 4]" for n :: int
  by (rule nth_equalityI) (auto simp: add.commute)

lemma extension_step:
  assumes "map_of (assets st) asset_id = Some a" "cursor_ok a"
  obtains st' a' where
    "create_realtime_parts st asset_id =
       (JsonUrls (map (upload_url asset_id) [num_parts a + 1 .. num_parts a + 5]), st')"
    "map_of (assets st') asset_id = Some a'" "num_parts a' = num_parts a + 5" "cursor_ok a'"
    "is_realtime a' = is_realtime a"
proof -
  have np: "(case next_realtime_part a of None \<Rightarrow> num_parts a + 1 | Some p \<Rightarrow> p) = num_parts a + 1"
    using assms(2) by (simp add: cursor_ok_def split: option.splits)
  let ?a' = "a\<lparr>next_realtime_part := Some (num_parts a + 1 + 5), num_parts := num_parts a + 1 + 5 - 1\<rparr>"
  have "map (\<lambda>i. upload_url asset_id (num_parts a + 1 + i)) [0 .. 5 - 1]
      = map (upload_url asset_id) [num_parts a + 1 .. num_parts a + 5]"
    using upto_shift_by [of "upload_url asset_id" "num_parts a + 1"] by (simp add: add.assoc)
  then have eq: "create_realtime_parts st asset_id =
       (JsonUrls (map (upload_url asset_id) [num_parts a + 1 .. num_parts a + 5]),
        st\<lparr>assets := AList.update asset_id ?a' (assets st)\<rparr>)"
    using assms(1) np by (simp add: create_realtime_parts_def Let_def)
  have reg: "map_of (assets (st\<lparr>assets := AList.update asset_id ?a' (assets st)\<rparr>)) asset_id = Some ?a'"
    by (simp add: update_conv')
  show thesis
    by (rule that [OF eq reg]) (simp_all add: cursor_ok_def)
qed

lemma realtime_upload_step:
  assumes "map_of (assets st) asset_id = Some a" "is_realtime a"
  obtains st' a' where
    "urls_of (fst (upload_part st asset_id q body today now)) = []"
    "snd (upload_part st asset_id q body today now) = st'"
    "map_of (assets st') asset_id = Some a'" "num_parts a' = num_parts a"
    "next_realtime_part a' = next_realtime_part a" "is_realtime a'"
proof (cases "part_param q")
  case None
  then have "upload_part st asset_id q body today now = (Bare 400, st)"
    by (simp add: upload_part_def)
  then show ?thesis
    using assms that [of st a] by (simp add: urls_of_def)
next
  case (Some p)
  let ?a' = "a\<lparr>parts_received := AList.update p (length (concat body)) (parts_received a)\<rparr>"
  let ?st' = "st\<lparr>parts_store := AList.update asset_id
                       (AList.update (fmt_06d p) (concat body) (staged st asset_id)) (parts_store st),
                   assets := AList.update asset_id ?a' (assets st)\<rparr>"
  have eq: "upload_part st asset_id q body today now = (Bare 200, ?st')"
    using upload_part_staged [OF assms(1) Some, of body today now] assms(2) by simp
  have reg: "map_of (assets ?st') asset_id = Some ?a'"
    by (simp add: update_conv')
  show ?thesis
    using eq reg assms(2) that [of ?st' ?a'] by (simp add: urls_of_def)
qed

lemma realtime_session:
  assumes "map_of (assets st) asset_id = Some a" "is_realtime a" "cursor_ok a"
    and "\<forall>r \<in> set rs. session_request asset_id r"
  shows "\<exists>a'. map_of (assets (run st rs)) asset_id = Some a' \<and> is_realtime a' \<and> cursor_ok a'
      \<and> num_parts a' = num_parts a + 5 * int (length (filter is_extension rs))
      \<and> concat (map urls_of (responses st rs))
          = map (upload_url asset_id) [num_parts a + 1 .. num_parts a + 5 * int (length (filter is_extension rs))]"
  using assms
proof (induction rs arbitrary: st a)
  case Nil
  then show ?case by simp
next
  case (Cons r rs)
  from Cons.prems(4) have rest: "\<forall>r \<in> set rs. session_request asset_id r" and r: "session_request asset_id r"
    by simp_all
  show ?case
  proof (cases r)
    case (RealtimeParts i)
    with r have i: "i = asset_id" by simp
    obtain st' a' where s: "create_realtime_parts st asset_id =
       (JsonUrls (map (upload_url asset_id) [num_parts a + 1 .. num_parts a + 5]), st')"
      "map_of (assets st') asset_id = Some a'" "num_parts a' = num_parts a + 5" "cursor_ok a'"
      "is_realtime a' = is_realtime a"
      using extension_step [OF Cons.prems(1) Cons.prems(3)] by blast
    obtain a'' where ih: "map_of (assets (run st' rs)) asset_id = Some a''" "is_realtime a''" "cursor_ok a''"
      "num_parts a'' = num_parts a' + 5 * int (length (filter is_extension rs))"
      "concat (map urls_of (responses st' rs))
          = map (upload_url asset_id) [num_parts a' + 1 .. num_parts a' + 5 * int (length (filter is_extension rs))]"
      using Cons.IH [OF s(2) _ s(4) rest] s(5) Cons.prems(2) by auto
    let ?k = "int (length (filter is_extension rs))"
    have "[num_parts a + 1 .. num_parts a + 5] @ [num_parts a + 5 + 1 .. num_parts a + 5 + 5 * ?k]
        = [num_parts a + 1 .. num_parts a + 5 * (?k + 1)]"
      using upto_split2 [of "num_parts a + 1" "num_parts a + 5" "num_parts a + 5 * (?k + 1)"]
      by (simp add: algebra_simps)
    then have "concat (map urls_of (responses st (r # rs)))
        = map (upload_url asset_id) [num_parts a + 1 .. num_parts a + 5 * (?k + 1)]"
      using s ih RealtimeParts i by (simp add: urls_of_def flip: map_append)
    then show ?thesis
      using s ih RealtimeParts i by (simp add: algebra_simps)
  next
    case (UploadPart i q body today now)
    with r have i: "i = asset_id" by simp
    obtain st' a' where s: "urls_of (fst (upload_part st asset_id q body today now)) = []"
      "snd (upload_part st asset_id q body today now) = st'"
      "map_of (assets st') asset_id = Some a'" "num_parts a' = num_parts a"
      "next_realtime_part a' = next_realtime_part a" "is_realtime a'"
      using realtime_upload_step [OF Cons.prems(1) Cons.prems(2)] by metis
    have "cursor_ok a'"
      using Cons.prems(3) s by (simp add: cursor_ok_def split: option.splits)
    from Cons.IH [OF s(3) s(6) this rest] show ?thesis
      using s UploadPart i by simp
  next
    case (CreateAsset x1 x2 x3)
    with r show ?thesis by simp
  next
    case (CompleteUpload x1 x2 x3)
    with r show ?thesis by simp
  qed
qed

lemma py_str_inj: "0 \<le> i \<Longrightarrow> 0 \<le> j \<Longrightarrow> py_str i = py_str j \<Longrightarrow> i = j"
  by (auto simp: py_str_def dest: dec_inj)

lemma upload_url_inj: "0 \<le> i \<Longrightarrow> 0 \<le> j \<Longrightarrow> upload_url asset_id i = upload_url asset_id j \<Longrightarrow> i = j"
  by (simp add: upload_url_def py_str_inj)

lemma create_asset_realtime:
  assumes "b_is_realtime_upload body = Some True"
  obtains a where "map_of (assets (snd (create_asset st body asset_id now))) asset_id = Some a"
    "is_realtime a" "num_parts a = 1" "next_realtime_part a = None"
    "urls_of (fst (create_asset st body asset_id now)) = [upload_url asset_id 1]"
proof -
  have n: "calc_num_parts (b_filesize body) True = 1"
    by (simp add: calc_num_parts_single)
  show thesis
    using assms n
    by (intro that [of "the (map_of (assets (snd (create_asset st body asset_id now))) asset_id)"])
       (simp_all add: create_asset_def Let_def update_conv' urls_of_def)
qed

text \<open>
  C8, where it fails. A completion signal that finds nothing staged sets \<open>num_parts\<close> to 0
  and leaves the asset registered with no cursor; the extension request after it issues
  the parts 1 to 5, of which part 1 was issued at creation, and \<open>num_parts\<close> is 5.
\<close>

theorem extension_after_empty_completion_counterexample:
  "urls_of (fst (create_asset initial_state video_body ''v1'' ''t0'')) = [''https://api.frame.io/upload/v1?part=1'']
   \<and> fst (complete_realtime_upload video_state ''v1'' ''2026-01-01'' ''t1'') = Bare 200
   \<and> fst (create_realtime_parts (snd (complete_realtime_upload video_state ''v1'' ''2026-01-01'' ''t1'')) ''v1'')
       = JsonUrls [''https://api.frame.io/upload/v1?part=1'', ''https://api.frame.io/upload/v1?part=2'',
            ''https://api.frame.io/upload/v1?part=3'', ''https://api.frame.io/upload/v1?part=4'',
            ''https://api.frame.io/upload/v1?part=5'']
   \<and> expected_parts (snd (create_realtime_parts
          (snd (complete_realtime_upload video_state ''v1'' ''2026-01-01'' ''t1'')) ''v1'')) ''v1'' = Some 5"
  by code_simp

text \<open>
  C8, amended. A realtime asset is created with \<open>num_parts = 1\<close> and the single locator
  of part 1. After any history \<open>rs\<close> of extension requests and part uploads for the asset
  (no completion signal), with \<open>k\<close> extension requests among them, the locators issued
  so far are those of the parts 1 to \<open>1 + 5k\<close> and \<open>num_parts\<close> is \<open>1 + 5k\<close>; the next
  extension request returns the five locators of the parts \<open>2 + 5k\<close> to \<open>6 + 5k\<close>,
  none of them issued before, and raises \<open>num_parts\<close> by 5. For \<open>k = 0\<close> this is the first
  extension, after which \<open>num_parts\<close> is 6.
\<close>

theorem realtime_extension_batches:
  fixes st :: state and body :: create_body and asset_id now :: string and rs :: "request list"
    and st1 k issued
  defines "st1 \<equiv> snd (create_asset st body asset_id now)"
    and "k \<equiv> int (length (filter is_extension rs))"
    and "issued \<equiv> urls_of (fst (create_asset st body asset_id now)) @ concat (map urls_of (responses st1 rs))"
  assumes "b_is_realtime_upload body = Some True"
    and "\<forall>r \<in> set rs. session_request asset_id r"
  shows "expected_parts st1 asset_id = Some 1
       \<and> urls_of (fst (create_asset st body asset_id now)) = [upload_url asset_id 1]
       \<and> issued = map (upload_url asset_id) [1 .. 1 + 5 * k]
       \<and> expected_parts (run st1 rs) asset_id = Some (1 + 5 * k)
       \<and> (\<exists>st'. step (run st1 rs) (RealtimeParts asset_id)
                 = (JsonUrls (map (upload_url asset_id) [2 + 5 * k .. 6 + 5 * k]), st')
               \<and> expected_parts st' asset_id = Some (6 + 5 * k))
       \<and> length (map (upload_url asset_id) [2 + 5 * k .. 6 + 5 * k]) = 5
       \<and> set (map (upload_url asset_id) [2 + 5 * k .. 6 + 5 * k]) \<inter> set issued = {}"
proof -
  obtain a where a: "map_of (assets st1) asset_id = Some a" "is_realtime a" "num_parts a = 1"
      "next_realtime_part a = None"
      "urls_of (fst (create_asset st body asset_id now)) = [upload_url asset_id 1]"
    using create_asset_realtime [OF assms(4), of st asset_id now] unfolding st1_def by blast
  have ok: "cursor_ok a"
    using a by (simp add: cursor_ok_def)
  obtain a' where a': "map_of (assets (run st1 rs)) asset_id = Some a'" "cursor_ok a'"
      "num_parts a' = 1 + 5 * k"
      "concat (map urls_of (responses st1 rs)) = map (upload_url asset_id) [2 .. 1 + 5 * k]"
    using realtime_session [OF a(1) a(2) ok assms(5)] a(3) unfolding k_def by auto
  have k0: "0 \<le> k"
    by (simp add: k_def)
  have iss: "issued = map (upload_url asset_id) [1 .. 1 + 5 * k]"
    using a(5) a'(4) k0 unfolding issued_def by (simp add: upto_rec1 [of 1])
  obtain st' a'' where s: "create_realtime_parts (run st1 rs) asset_id =
       (JsonUrls (map (upload_url asset_id) [num_parts a' + 1 .. num_parts a' + 5]), st')"
    "map_of (assets st') asset_id = Some a''" "num_parts a'' = num_parts a' + 5"
    using extension_step [OF a'(1) a'(2)] by blast
  have next_step: "step (run st1 rs) (RealtimeParts asset_id)
                 = (JsonUrls (map (upload_url asset_id) [2 + 5 * k .. 6 + 5 * k]), st')
               \<and> expected_parts st' asset_id = Some (6 + 5 * k)"
    using s a'(3) by (simp add: expected_parts_def algebra_simps)
  have disj: "set (map (upload_url asset_id) [2 + 5 * k .. 6 + 5 * k]) \<inter> set issued = {}"
  proof -
    have "upload_url asset_id i \<noteq> upload_url asset_id j"
      if "i \<in> {2 + 5 * k .. 6 + 5 * k}" "j \<in> {1 .. 1 + 5 * k}" for i j
      using that k0 upload_url_inj [of i j asset_id] by auto
    then show ?thesis
      unfolding iss by auto
  qed
  show ?thesis
    using a(1) a(3) a(5) iss a'(1) a'(3) next_step disj
    by (auto simp: expected_parts_def)
qed

theorem realtime_extension_batches_witness:
  "expected_parts video_state ''v1'' = Some 1
   \<and> urls_of (fst (create_asset initial_state video_body ''v1'' ''t0'')) = [''https://api.frame.io/upload/v1?part=1'']
   \<and> fst (step (run video_state [UploadPart ''v1'' (Some (ascii ''1'')) [[1, 2]] ''2026-01-01'' ''t1''])
              (RealtimeParts ''v1''))
       = JsonUrls [''https://api.frame.io/upload/v1?part=2'', ''https://api.frame.io/upload/v1?part=3'',
            ''https://api.frame.io/upload/v1?part=4'', ''https://api.frame.io/upload/v1?part=5'',
            ''https://api.frame.io/upload/v1?part=6'']
   \<and> expected_parts (snd (step (run video_state [UploadPart ''v1'' (Some (ascii ''1'')) [[1, 2]] ''2026-01-01'' ''t1''])
              (RealtimeParts ''v1''))) ''v1'' = Some 6"
proof -
  have rt: "b_is_realtime_upload video_body = Some True"
    by (simp add: video_body_def)
  have rs: "\<forall>r \<in> set [UploadPart ''v1'' (Some (ascii ''1'')) [[1, 2]] ''2026-01-01'' ''t1'']. session_request ''v1'' r"
    by simp
  have u1: "upload_url ''v1'' 1 = ''https://api.frame.io/upload/v1?part=1''"
    by code_simp
  have u: "map (upload_url ''v1'') [2 .. 6]
     = [''https://api.frame.io/upload/v1?part=2'', ''https://api.frame.io/upload/v1?part=3'',
            ''https://api.frame.io/upload/v1?part=4'', ''https://api.frame.io/upload/v1?part=5'',
            ''https://api.frame.io/upload/v1?part=6'']"
    by code_simp
  show ?thesis
    using realtime_extension_batches [OF rt rs, of initial_state "''t0''"] u u1
    by (auto simp: video_state_def)
qed

section \<open>Name collisions\<close>

lemma resolve_loop_least:
  "taken names p \<Longrightarrow>
     \<exists>k\<ge>c. resolve_loop names stem suffix p c = candidate stem suffix k
        \<and> (\<forall>j. c \<le> j \<and> j < k \<longrightarrow> taken names (candidate stem suffix j))"
proof (induction names stem suffix p c rule: resolve_loop.induct)
  case (1 names stem suffix output_path counter)
  have unfold: "resolve_loop names stem suffix output_path counter
      = resolve_loop names stem suffix (candidate stem suffix counter) (counter + 1)"
    using "1.prems" by (subst resolve_loop.simps) simp
  show ?case
  proof (cases "taken names (candidate stem suffix counter)")
    case False
    then have "resolve_loop names stem suffix (candidate stem suffix counter) (counter + 1)
        = candidate stem suffix counter"
      by (subst resolve_loop.simps) simp
    with unfold show ?thesis
      by (intro exI [of _ counter]) auto
  next
    case True
    from "1.IH" [OF "1.prems" True] obtain k where k: "counter + 1 \<le> k"
      "resolve_loop names stem suffix (candidate stem suffix counter) (counter + 1) = candidate stem suffix k"
      "\<forall>j. counter + 1 \<le> j \<and> j < k \<longrightarrow> taken names (candidate stem suffix j)"
      by blast
    have "\<forall>j. counter \<le> j \<and> j < k \<longrightarrow> taken names (candidate stem suffix j)"
    proof (intro allI impI)
      fix j assume j: "counter \<le> j \<and> j < k"
      show "taken names (candidate stem suffix j)"
      proof (cases "j = counter")
        case True
        with \<open>taken names (candidate stem suffix counter)\<close> show ?thesis by simp
      next
        case False
        with j have "counter + 1 \<le> j \<and> j < k" by linarith
        with k(3) show ?thesis by blast
      qed
    qed
    with unfold k show ?thesis
      by (intro exI [of _ k]) simp
  qed
qed

lemma rfind_less: "rfind c s = Some i \<Longrightarrow> i < length s"
  by (induction s arbitrary: i) (auto split: option.splits if_splits)

lemma stem_suffix: "path_stem nm @ path_suffix nm = nm"
  by (simp add: path_stem_def path_suffix_def split: option.splits)

text \<open>
  C9. An assembly writes one new file into the directory of the day and leaves every file
  that was there as it was. The new file has the asset's name when that name is free;
  otherwise its name is the stem, an underscore, a number \<open>k \<ge> 1\<close> and the extension
  (stem and extension being the two pieces that make up the asset's name), where \<open>k\<close> is
  the first number whose name is free: the names for all smaller numbers exist. So assets
  of one name assembled into one directory get \<^verbatim>\<open>name.ext\<close>, \<^verbatim>\<open>name_1.ext\<close>,
  \<^verbatim>\<open>name_2.ext\<close> and so on, all different; the instance that follows is the third
  \<^verbatim>\<open>clip.mov\<close> of a day.
\<close>

theorem assemble_file_collision:
  assumes "map_of (assets st) asset_id = Some a" "\<not> complete a"
    and "map_of (parts_store st) asset_id = Some parts_dir"
  shows "\<exists>st' out. assemble_file st asset_id today now = Inr st'
     \<and> uploads st' = uploads st @ [((today, out), concat (map snd (sort_key fst parts_dir)))]
     \<and> (today, out) \<notin> fst ` set (uploads st)
     \<and> path_stem (name a) @ path_suffix (name a) = name a
     \<and> (\<not> taken (names_in st today) (name a) \<longrightarrow> out = name a)
     \<and> (taken (names_in st today) (name a) \<longrightarrow>
          (\<exists>k\<ge>1. out = path_stem (name a) @ ''_'' @ dec k @ path_suffix (name a)
             \<and> (\<forall>j. 1 \<le> j \<and> j < k \<longrightarrow>
                   taken (names_in st today) (path_stem (name a) @ ''_'' @ dec j @ path_suffix (name a)))))"
proof -
  let ?out = "resolve_output (names_in st today) (name a)"
  obtain st' where st': "assemble_file st asset_id today now = Inr st'"
    "uploads st' = uploads st @ [((today, ?out), concat (map snd (sort_key fst parts_dir)))]"
    using assemble_file_effect [OF assms, of today now] by blast
  have free: "\<not> taken (names_in st today) (name a) \<Longrightarrow> ?out = name a"
    by (simp add: resolve_output_def)
  have coll: "\<exists>k\<ge>1. ?out = path_stem (name a) @ ''_'' @ dec k @ path_suffix (name a)
             \<and> (\<forall>j. 1 \<le> j \<and> j < k \<longrightarrow>
                   taken (names_in st today) (path_stem (name a) @ ''_'' @ dec j @ path_suffix (name a)))"
    if "taken (names_in st today) (name a)"
    using resolve_loop_least [OF that, of 1 "path_stem (name a)" "path_suffix (name a)"] that
    by (simp add: resolve_output_def candidate_def)
  show ?thesis
    using st' free coll output_name_fresh [of today st "name a"] stem_suffix [of "name a"]
    by blast
qed

theorem assemble_file_collision_witness:
  "map_of (assets collision_state) ''a3'' = Some third_clip \<and> \<not> complete third_clip
   \<and> taken (names_in collision_state ''2026-01-01'') (name third_clip)
   \<and> (\<exists>st'. assemble_file collision_state ''a3'' ''2026-01-01'' ''t1'' = Inr st'
        \<and> uploads st' = uploads collision_state @ [((''2026-01-01'', ''clip_2.mov''), [5, 6])])"
proof -
  have reg: "map_of (assets collision_state) ''a3'' = Some third_clip"
    by (simp add: collision_state_def)
  have inc: "\<not> complete third_clip"
    by (simp add: third_clip_def)
  have dir: "map_of (parts_store collision_state) ''a3'' = Some [(''000001'', [5, 6])]"
    by (simp add: collision_state_def)
  have tk: "taken (names_in collision_state ''2026-01-01'') (name third_clip)"
    by code_simp
  have n1: "path_stem (name third_clip) @ ''_'' @ dec 1 @ path_suffix (name third_clip) = ''clip_1.mov''"
    by code_simp
  have t1: "(''2026-01-01'', ''clip_1.mov'') \<in> fst ` set (uploads collision_state)"
    by (simp add: collision_state_def)
  have t2: "\<not> taken (names_in collision_state ''2026-01-01'') (path_stem (name third_clip) @ ''_'' @ dec 2 @ path_suffix (name third_clip))"
    by code_simp
  have n2: "path_stem (name third_clip) @ ''_'' @ dec 2 @ path_suffix (name third_clip) = ''clip_2.mov''"
    by code_simp
  have c: "concat (map snd (sort_key fst [(''000001'', [5, 6::8 word])])) = [5, 6]"
    by code_simp
  obtain st' out k where r: "assemble_file collision_state ''a3'' ''2026-01-01'' ''t1'' = Inr st'"
    "uploads st' = uploads collision_state @ [((''2026-01-01'', out), concat (map snd (sort_key fst [(''000001'', [5, 6])])))]"
    "(''2026-01-01'', out) \<notin> fst ` set (uploads collision_state)"
    "1 \<le> k" "out = path_stem (name third_clip) @ ''_'' @ dec k @ path_suffix (name third_clip)"
    "\<forall>j. 1 \<le> j \<and> j < k \<longrightarrow>
        taken (names_in collision_state ''2026-01-01'') (path_stem (name third_clip) @ ''_'' @ dec j @ path_suffix (name third_clip))"
    using assemble_file_collision [OF reg inc dir, of "''2026-01-01''" "''t1''"] tk by blast
  have "k \<noteq> 1"
    using r(3,5) t1 n1 by (metis One_nat_def)
  moreover have "\<not> 2 < k"
    using r(6) t2 by auto
  ultimately have "k = 2"
    using r(4) by linarith
  with r n2 c reg inc tk show ?thesis
    by simp
qed

section \<open>The upload history\<close>

lemma assemble_file_log:
  "assemble_file st asset_id today now = Inr st' \<Longrightarrow>
     upload_log st' = upload_log st \<or> (\<exists>e. upload_log st' = take 500 (e # upload_log st))"
  by (auto simp: assemble_file_def Let_def trim_log_take split: option.splits if_splits)

lemma upload_part_log:
  "upload_log (snd (upload_part st asset_id q body today now)) = upload_log st
   \<or> (\<exists>e. upload_log (snd (upload_part st asset_id q body today now)) = take 500 (e # upload_log st))"
proof -
  have "upload_log st2 = upload_log st \<or> (\<exists>e. upload_log st2 = take 500 (e # upload_log st))"
    if "assemble_file (st\<lparr>parts_store := ps, assets := al\<rparr>) asset_id today now = Inr st2" for ps al st2
    using assemble_file_log [OF that] by simp
  then show ?thesis
    by (auto simp: upload_part_def Let_def split: option.splits sum.splits)
qed

lemma complete_log:
  "upload_log (snd (complete_realtime_upload st asset_id today now)) = upload_log st
   \<or> (\<exists>e. upload_log (snd (complete_realtime_upload st asset_id today now)) = take 500 (e # upload_log st))"
proof -
  have "upload_log st2 = upload_log st \<or> (\<exists>e. upload_log st2 = take 500 (e # upload_log st))"
    if "assemble_file (st\<lparr>assets := al\<rparr>) asset_id today now = Inr st2" for al st2
    using assemble_file_log [OF that] by simp
  then show ?thesis
    by (auto simp: complete_realtime_upload_def Let_def split: option.splits sum.splits)
qed

lemma step_log:
  "upload_log (snd (step st r)) = upload_log st
   \<or> (\<exists>e. upload_log (snd (step st r)) = take 500 (e # upload_log st))"
proof (cases r)
  case (CreateAsset body asset_id now)
  then show ?thesis by (simp add: create_asset_def Let_def)
next
  case (RealtimeParts asset_id)
  then show ?thesis by (simp add: create_realtime_parts_def Let_def split: option.splits)
next
  case (UploadPart asset_id q body today now)
  then show ?thesis using upload_part_log [of st asset_id q body today now] by simp
next
  case (CompleteUpload asset_id today now)
  then show ?thesis using complete_log [of st asset_id today now] by simp
qed

lemma step_log_bound: "length (upload_log st) \<le> 500 \<Longrightarrow> length (upload_log (snd (step st r))) \<le> 500"
  using step_log [of st r] by auto

lemma scan_log_bound: "length (upload_log (scan_existing_uploads (st\<lparr>upload_log := []\<rparr>) walk)) \<le> 500"
  by (simp add: scan_existing_uploads_def Let_def split: option.splits)

lemma create_asset_fresh:
  obtains a where "map_of (assets (snd (create_asset st body asset_id now))) asset_id = Some a"
    "num_parts a = calc_num_parts (b_filesize body)
        (case b_is_realtime_upload body of None \<Rightarrow> False | Some b \<Rightarrow> b)"
    "is_realtime a = (case b_is_realtime_upload body of None \<Rightarrow> False | Some b \<Rightarrow> b)"
    "\<not> complete a" "parts_received a = []" "next_realtime_part a = None"
    "upload_log (snd (create_asset st body asset_id now)) = upload_log st"
    "uploads (snd (create_asset st body asset_id now)) = uploads st"
    "parts_store (snd (create_asset st body asset_id now)) = parts_store st"
  by (rule that [of "the (map_of (assets (snd (create_asset st body asset_id now))) asset_id)"])
     (simp_all add: create_asset_def Let_def update_conv')

lemma single_upload_log:
  assumes "one_part u"
  shows "\<exists>e. upload_log (run st (requests_of u)) = take 500 (e # upload_log st)
           \<and> log_timestamp e = su_now u \<and> log_directory e = su_today u"
proof -
  let ?st1 = "snd (create_asset st (su_body u) (su_id u) (su_created u))"
  have rt: "(case b_is_realtime_upload (su_body u) of None \<Rightarrow> False | Some b \<Rightarrow> b) = False"
    using assms by (auto simp: one_part_def split: option.splits)
  obtain a where a: "map_of (assets ?st1) (su_id u) = Some a" "num_parts a = 1" "\<not> is_realtime a"
      "\<not> complete a" "parts_received a = []" "upload_log ?st1 = upload_log st"
    using create_asset_fresh [of st "su_body u" "su_id u" "su_created u"] rt assms
    by (metis one_part_def)
  obtain p where p: "part_param (su_part u) = Some p"
    using assms by (auto simp: one_part_def)
  have ready: "num_parts a \<le> int (length (AList.update p (length (concat (su_chunks u))) (parts_received a)))"
    using a by simp
  obtain st' e where "upload_part ?st1 (su_id u) (su_part u) (su_chunks u) (su_today u) (su_now u) = (Bare 200, st')"
    "upload_log st' = take 500 (e # upload_log ?st1)" "log_timestamp e = su_now u" "log_directory e = su_today u"
    using upload_part_assembled [OF a(1) p a(4) a(3) ready, of "su_today u" "su_now u"]
    by (metis log_entry.select_convs(3,5))
  then show ?thesis
    using a(6) by (auto simp: requests_of_def)
qed

lemma take_append_take: "take n (xs @ take n ys) = take n (xs @ ys)"
  by (induction xs arbitrary: n) (auto simp: take_Cons')

lemma run_append: "run st (rs @ rs') = run (run st rs) rs'"
  by (induction rs arbitrary: st) auto

lemma single_uploads_log:
  assumes "\<forall>u \<in> set us. one_part u" "length (upload_log st) \<le> 500"
  shows "map log_timestamp (upload_log (run st (concat (map requests_of us))))
           = take 500 (rev (map su_now us) @ map log_timestamp (upload_log st))"
  using assms
proof (induction us arbitrary: st)
  case Nil
  then show ?case by simp
next
  case (Cons u us)
  obtain e where e: "upload_log (run st (requests_of u)) = take 500 (e # upload_log st)"
    "log_timestamp e = su_now u"
    using single_upload_log [of u st] Cons.prems by auto
  then have len: "length (upload_log (run st (requests_of u))) \<le> 500"
    by simp
  have "map log_timestamp (upload_log (run st (concat (map requests_of (u # us)))))
      = take 500 (rev (map su_now us) @ map log_timestamp (upload_log (run st (requests_of u))))"
    using Cons.IH [OF _ len] Cons.prems by (simp add: run_append)
  also have "map log_timestamp (upload_log (run st (requests_of u)))
      = take 500 (su_now u # map log_timestamp (upload_log st))"
    using e by (simp add: take_map)
  also have "take 500 (rev (map su_now us) @ take 500 (su_now u # map log_timestamp (upload_log st)))
      = take 500 (rev (map su_now us) @ (su_now u # map log_timestamp (upload_log st)))"
    by (rule take_append_take)
  also have "rev (map su_now us) @ (su_now u # map log_timestamp (upload_log st))
      = rev (map su_now (u # us)) @ map log_timestamp (upload_log st)"
    by simp
  finally show ?case .
qed

text \<open>
  C7. The history never grows beyond 500 entries: a request leaves a history of at most
  500 entries at most 500 long, and the startup scan seeds an empty history with at most
  500 entries. An assembly that runs puts its entry (stamped \<open>now\<close>, for the directory
  \<open>today\<close>, with the size of the file written) at the front and drops what lies beyond
  position 500. Hence after any number of single uploads the completion stamps in the
  history are the 500 most recent ones, newest first; the instance that follows runs 501 single uploads
  from the empty state and finds the stamps of uploads 500 down to 1, the stamp of
  upload 0 gone.
\<close>

theorem upload_history_bounded:
  "(length (upload_log st) \<le> 500 \<longrightarrow> length (upload_log (snd (step st r))) \<le> 500)
   \<and> length (upload_log (scan_existing_uploads (st\<lparr>upload_log := []\<rparr>) walk)) \<le> 500
   \<and> (map_of (assets st) asset_id = Some a \<and> \<not> complete a
        \<and> map_of (parts_store st) asset_id = Some parts_dir \<longrightarrow>
        (\<exists>st' e. assemble_file st asset_id today now = Inr st'
           \<and> upload_log st' = take 500 (e # upload_log st)
           \<and> log_timestamp e = now \<and> log_directory e = today \<and> log_type e = filetype a
           \<and> log_size e = length (concat (map snd (sort_key fst parts_dir)))))
   \<and> ((\<forall>u \<in> set us. one_part u) \<and> length (upload_log st) \<le> 500 \<longrightarrow>
        map log_timestamp (upload_log (run st (concat (map requests_of us))))
          = take 500 (rev (map su_now us) @ map log_timestamp (upload_log st)))"
proof -
  have front: "\<exists>st' e. assemble_file st asset_id today now = Inr st'
           \<and> upload_log st' = take 500 (e # upload_log st)
           \<and> log_timestamp e = now \<and> log_directory e = today \<and> log_type e = filetype a
           \<and> log_size e = length (concat (map snd (sort_key fst parts_dir)))"
    if "map_of (assets st) asset_id = Some a" "\<not> complete a"
       "map_of (parts_store st) asset_id = Some parts_dir"
    using assemble_file_effect [OF that, of today now]
    by (metis log_entry.select_convs(2,3,4,5))
  show ?thesis
    using step_log_bound [of st r] scan_log_bound [of st walk] front
      single_uploads_log [of us st]
    by blast
qed

theorem upload_history_bounded_witness:
  "length (upload_log (snd (step collision_state (CompleteUpload ''a3'' ''2026-01-01'' ''t1'')))) \<le> 500
   \<and> (\<exists>st' e. assemble_file collision_state ''a3'' ''2026-01-01'' ''t1'' = Inr st'
         \<and> upload_log st' = [e] \<and> log_timestamp e = ''t1'')
   \<and> length (map nth_upload [0..<501]) = 501
   \<and> upload_log initial_state = []
   \<and> map log_timestamp (upload_log (run initial_state (concat (map requests_of (map nth_upload [0..<501])))))
       = rev (map (\<lambda>k. ''t'' @ dec k) [1..<501])
   \<and> length (upload_log (run initial_state (concat (map requests_of (map nth_upload [0..<501]))))) = 500"
proof -
  have reg: "map_of (assets collision_state) ''a3'' = Some third_clip \<and> \<not> complete third_clip
        \<and> map_of (parts_store collision_state) ''a3'' = Some [(''000001'', [5, 6])]"
    by (simp add: collision_state_def third_clip_def)
  have log0: "upload_log collision_state = []"
    by (simp add: collision_state_def)
  have one: "\<forall>u \<in> set (map nth_upload [0..<501]). one_part u"
    by (simp add: one_part_def nth_upload_def calc_num_parts_def part_param_def)
  have init: "upload_log initial_state = []"
    by (simp add: initial_state_def)
  have m: "map su_now (map nth_upload [0..<501]) = map (\<lambda>k. ''t'' @ dec k) [0..<501]"
    by (simp add: nth_upload_def)
  have "take 500 (rev (map (\<lambda>k. ''t'' @ dec k) [0..<501]) @ map log_timestamp [])
      = rev (drop 1 (map (\<lambda>k. ''t'' @ dec k) [0..<501]))"
    by (simp add: take_rev)
  then have "take 500 (rev (map su_now (map nth_upload [0..<501])) @ map log_timestamp (upload_log initial_state))
      = rev (drop 1 (map (\<lambda>k. ''t'' @ dec k) [0..<501]))"
    by (simp only: m init)
  also have "drop 1 (map (\<lambda>k. ''t'' @ dec k) [0..<501]) = map (\<lambda>k. ''t'' @ dec k) [1..<501]"
    by (simp only: drop_map drop_upt) simp
  finally have ts: "take 500 (rev (map su_now (map nth_upload [0..<501])) @ map log_timestamp (upload_log initial_state))
      = rev (map (\<lambda>k. ''t'' @ dec k) [1..<501])" .
  have a: "length (upload_log (snd (step collision_state (CompleteUpload ''a3'' ''2026-01-01'' ''t1'')))) \<le> 500"
    "\<exists>st' e. assemble_file collision_state ''a3'' ''2026-01-01'' ''t1'' = Inr st'
         \<and> upload_log st' = [e] \<and> log_timestamp e = ''t1''"
    using upload_history_bounded [of collision_state "CompleteUpload ''a3'' ''2026-01-01'' ''t1''" None "''a3''"
        third_clip "[(''000001'', [5, 6])]" "''2026-01-01''" "''t1''" "[]"] reg log0
    by auto
  have b: "map log_timestamp (upload_log (run initial_state (concat (map requests_of (map nth_upload [0..<501])))))
       = rev (map (\<lambda>k. ''t'' @ dec k) [1..<501])"
    using upload_history_bounded [of initial_state "RealtimeParts []" None "[]" third_clip "[]" "[]" "[]"
        "map nth_upload [0..<501]"] one init ts
    by simp
  have "length (map log_timestamp (upload_log (run initial_state (concat (map requests_of (map nth_upload [0..<501])))))) = 500"
    unfolding b by simp
  then have c: "length (upload_log (run initial_state (concat (map requests_of (map nth_upload [0..<501]))))) = 500"
    by simp
  from a b c init show ?thesis
    by simp
qed

section \<open>Assembly happens once\<close>

lemma assemble_file_outcome:
  assumes "assemble_file st asset_id today now = Inr st'"
  shows "st' = st \<or> (assembled_step st st' \<and> map_of (assets st') asset_id = None)"
proof (cases "map_of (assets st) asset_id")
  case None
  with assms show ?thesis by (simp add: assemble_file_def)
next
  case (Some a)
  show ?thesis
  proof (cases "complete a \<or> map_of (parts_store st) asset_id = None")
    case True
    with assms Some show ?thesis
      by (auto simp: assemble_file_def split: if_splits)
  next
    case False
    then obtain dir where dir: "map_of (parts_store st) asset_id = Some dir" and inc: "\<not> complete a"
      by auto
    show ?thesis
      using assemble_file_effect [OF Some inc dir, of today now] assms
      by (auto simp: assembled_step_def)
  qed
qed

lemma assemble_file_keeps_absent:
  assumes "assemble_file st k today now = Inr st'" "map_of (assets st) asset_id = None"
  shows "map_of (assets st') asset_id = None"
proof -
  have "k \<noteq> asset_id \<or> st' = st"
    using assms by (auto simp: assemble_file_def)
  then show ?thesis
    using assms
    by (auto simp: assemble_file_def Let_def prune_state_assets update_conv'
        split: option.splits if_splits)
qed

lemma upload_part_outcome:
  assumes "upload_part st asset_id q body today now = (resp, st')"
  shows "quiet_step st st' \<or> (assembled_step st st' \<and> map_of (assets st') asset_id = None)"
proof -
  have *: "quiet_step st st2 \<or> (assembled_step st st2 \<and> map_of (assets st2) asset_id = None)"
    if "assemble_file (st\<lparr>parts_store := ps, assets := al\<rparr>) asset_id today now = Inr st2" for ps al st2
    using assemble_file_outcome [OF that] by (auto simp: quiet_step_def assembled_step_def)
  show ?thesis
    using assms
    by (auto simp: upload_part_def Let_def quiet_step_def dest: * split: option.splits sum.splits if_splits)
qed

lemma complete_outcome:
  assumes "complete_realtime_upload st asset_id today now = (resp, st')"
  shows "quiet_step st st' \<or> (assembled_step st st' \<and> map_of (assets st') asset_id = None)"
proof -
  have *: "quiet_step st st2 \<or> (assembled_step st st2 \<and> map_of (assets st2) asset_id = None)"
    if "assemble_file (st\<lparr>assets := al\<rparr>) asset_id today now = Inr st2" for al st2
    using assemble_file_outcome [OF that] by (auto simp: quiet_step_def assembled_step_def)
  show ?thesis
    using assms
    by (auto simp: complete_realtime_upload_def Let_def quiet_step_def dest: * split: option.splits sum.splits)
qed

lemma step_outcome:
  "quiet_step st (snd (step st r))
   \<or> (assembled_step st (snd (step st r))
       \<and> (\<exists>i. addressed i r \<and> map_of (assets (snd (step st r))) i = None))"
proof (cases r)
  case (CreateAsset body i now)
  then show ?thesis by (simp add: create_asset_def Let_def quiet_step_def)
next
  case (RealtimeParts i)
  then show ?thesis by (simp add: create_realtime_parts_def Let_def quiet_step_def split: option.splits)
next
  case (UploadPart i q body today now)
  then show ?thesis
    using upload_part_outcome [of st i q body today now "fst (upload_part st i q body today now)"
        "snd (upload_part st i q body today now)"]
    by auto
next
  case (CompleteUpload i today now)
  then show ?thesis
    using complete_outcome [of st i today now "fst (complete_realtime_upload st i today now)"
        "snd (complete_realtime_upload st i today now)"]
    by auto
qed

lemma step_keeps_absent:
  assumes "map_of (assets st) asset_id = None" "\<not> creates asset_id r"
  shows "map_of (assets (snd (step st r))) asset_id = None"
proof (cases r)
  case (CreateAsset body i now)
  with assms show ?thesis by (simp add: create_asset_def Let_def update_conv')
next
  case (RealtimeParts i)
  with assms show ?thesis
    by (auto simp: create_realtime_parts_def Let_def update_conv' split: option.splits)
next
  case (UploadPart i q body today now)
  have *: "map_of (assets st2) asset_id = None"
    if "assemble_file (st\<lparr>parts_store := ps, assets := AList.update i a (assets st)\<rparr>) i today now = Inr st2"
      "i \<noteq> asset_id" for ps a st2
    using assemble_file_keeps_absent [OF that(1), of asset_id] assms(1) that(2)
    by (simp add: update_conv')
  show ?thesis
    using assms UploadPart
    by (auto simp: upload_part_def Let_def update_conv' dest: * split: option.splits sum.splits if_splits)
next
  case (CompleteUpload i today now)
  have *: "map_of (assets st2) asset_id = None"
    if "assemble_file (st\<lparr>assets := AList.update i a (assets st)\<rparr>) i today now = Inr st2"
      "i \<noteq> asset_id" for a st2
    using assemble_file_keeps_absent [OF that(1), of asset_id] assms(1) that(2)
    by (simp add: update_conv')
  show ?thesis
    using assms CompleteUpload
    by (auto simp: complete_realtime_upload_def Let_def update_conv' dest: * split: option.splits sum.splits)
qed

lemma step_absent_quiet:
  assumes "map_of (assets st) asset_id = None" "addressed asset_id r"
  shows "snd (step st r) = st"
  using assms
  by (cases r) (auto simp: upload_part_def complete_realtime_upload_def split: option.splits)

lemma assemblies_absent:
  assumes "map_of (assets st) asset_id = None" "\<forall>r \<in> set rs. \<not> creates asset_id r"
  shows "assemblies st rs asset_id = 0"
  using assms
proof (induction rs arbitrary: st)
  case Nil
  then show ?case by simp
next
  case (Cons r rs)
  have "map_of (assets (snd (step st r))) asset_id = None"
    using Cons.prems by (simp add: step_keeps_absent)
  then have "assemblies (snd (step st r)) rs asset_id = 0"
    using Cons by simp
  moreover have "addressed asset_id r \<Longrightarrow> uploads (snd (step st r)) = uploads st"
    using step_absent_quiet [OF Cons.prems(1)] by simp
  ultimately show ?case by auto
qed

lemma step_assembles_removes:
  assumes "addressed asset_id r" "uploads (snd (step st r)) \<noteq> uploads st"
  shows "map_of (assets (snd (step st r))) asset_id = None"
proof -
  have "\<not> quiet_step st (snd (step st r))"
    using assms(2) by (simp add: quiet_step_def)
  then obtain i where "addressed i r" "map_of (assets (snd (step st r))) i = None"
    using step_outcome [of st r] by blast
  moreover have "i = asset_id"
    using assms(1) \<open>addressed i r\<close> by (cases r) auto
  ultimately show ?thesis by simp
qed

lemma assemblies_le_1:
  assumes "\<forall>r \<in> set rs. \<not> creates asset_id r"
  shows "assemblies st rs asset_id \<le> 1"
  using assms
proof (induction rs arbitrary: st)
  case Nil
  then show ?case by simp
next
  case (Cons r rs)
  show ?case
  proof (cases "addressed asset_id r \<and> uploads (snd (step st r)) \<noteq> uploads st")
    case True
    then have "map_of (assets (snd (step st r))) asset_id = None"
      by (simp add: step_assembles_removes)
    then have "assemblies (snd (step st r)) rs asset_id = 0"
      using Cons.prems by (simp add: assemblies_absent)
    with True show ?thesis by simp
  next
    case False
    then show ?thesis using Cons by auto
  qed
qed

text \<open>
  C3. In every run of requests in which the id of an asset is not drawn again by an asset
  creation (ids are fresh UUIDs), at most one request assembles the asset; and every
  single request either leaves output files and history as they were or adds exactly one
  file and one history entry. The complete flag is set only inside an assembly that
  runs, so it is set at most once as well. The instance that follows delivers parts 2, 1, 3 and then
  part 3 again: the third request assembles, the fourth is answered 404 and changes
  nothing.
\<close>

theorem assembly_at_most_once:
  assumes "\<forall>r \<in> set rs. \<not> creates asset_id r"
  shows "assemblies st rs asset_id \<le> 1
       \<and> (quiet_step st (snd (step st r)) \<or> assembled_step st (snd (step st r)))"
  using assemblies_le_1 [OF assms, of st] step_outcome [of st r]
  by blast

theorem assembly_at_most_once_witness:
  "assemblies clip_state clip_deliveries ''a1'' \<le> 1
   \<and> assemblies clip_state clip_deliveries ''a1'' = 1
   \<and> responses clip_state clip_deliveries = [Bare 200, Bare 200, Bare 200, Bare 404]
   \<and> uploads (run clip_state clip_deliveries) = [((''2026-01-01'', ''clip.mov''), [10, 11, 20, 21, 30])]
   \<and> map log_timestamp (upload_log (run clip_state clip_deliveries)) = [''t3'']"
proof -
  have nc: "\<forall>r \<in> set clip_deliveries. \<not> creates ''a1'' r"
    by (simp add: clip_deliveries_def)
  have ev: "assemblies clip_state clip_deliveries ''a1'' = 1"
    "responses clip_state clip_deliveries = [Bare 200, Bare 200, Bare 200, Bare 404]"
    "uploads (run clip_state clip_deliveries) = [((''2026-01-01'', ''clip.mov''), [10, 11, 20, 21, 30])]"
    "map log_timestamp (upload_log (run clip_state clip_deliveries)) = [''t3'']"
    by code_simp+
  show ?thesis
    using assembly_at_most_once [OF nc, of clip_state] ev
    by simp
qed

section \<open>Part uploads after completion\<close>

lemma set_fold_delete: "set (fold AList.delete ks al) = {kv \<in> set al. fst kv \<notin> set ks}"
  by (induction ks arbitrary: al) (auto simp: AList.delete_eq)

lemma set_update_subset: "set (AList.update k v al) \<subseteq> insert (k, v) (set al)"
  by (induction al) auto

lemma prune_all_incomplete: "all_incomplete (prune_state st)"
  by (force simp: all_incomplete_def prune_state_def Let_def set_fold_delete list_all_iff)

lemma all_incomplete_update:
  "all_incomplete st \<Longrightarrow> \<not> complete a \<Longrightarrow> all_incomplete (st\<lparr>assets := AList.update k a (assets st)\<rparr>)"
  using set_update_subset [of k a "assets st"]
  by (auto simp: all_incomplete_def list_all_iff)

lemma all_incomplete_cong:
  "assets st' = assets st \<Longrightarrow> all_incomplete st' = all_incomplete st"
  by (simp add: all_incomplete_def)

lemma all_incomplete_lookup:
  "all_incomplete st \<Longrightarrow> map_of (assets st) k = Some a \<Longrightarrow> \<not> complete a"
  by (auto simp: all_incomplete_def list_all_iff dest: map_of_SomeD)

lemma assemble_file_all_incomplete:
  assumes "assemble_file st k today now = Inr st'" "all_incomplete st"
  shows "all_incomplete st'"
  using assms prune_all_incomplete
  by (auto simp: assemble_file_def Let_def split: option.splits if_splits)

lemma incomplete_update:
  assumes "all_incomplete st" "map_of (assets st) k = Some a" "complete a' = complete a"
  shows "list_all (\<lambda>(k, a). \<not> complete a) (AList.update k a' (assets st))"
  using set_update_subset [of k a' "assets st"] all_incomplete_lookup [OF assms(1,2)] assms(1,3)
  by (auto simp: all_incomplete_def list_all_iff)

lemma step_all_incomplete:
  assumes "all_incomplete st"
  shows "all_incomplete (snd (step st r))"
proof (cases r)
  case (CreateAsset body i now)
  then show ?thesis
    using assms by (simp add: create_asset_def Let_def all_incomplete_update)
next
  case (RealtimeParts i)
  then show ?thesis
    using assms
    by (auto simp: create_realtime_parts_def Let_def all_incomplete_def
        intro!: incomplete_update [unfolded all_incomplete_def] split: option.splits)
next
  case (UploadPart i q body today now)
  have *: "all_incomplete (st\<lparr>parts_store := ps, assets := AList.update i (a\<lparr>parts_received := pr\<rparr>) (assets st)\<rparr>)"
    if "map_of (assets st) i = Some a" for a ps pr
    using incomplete_update [OF assms that, of "a\<lparr>parts_received := pr\<rparr>"]
    by (simp add: all_incomplete_def)
  show ?thesis
    using UploadPart assms
    by (auto simp: upload_part_def Let_def dest!: * dest: assemble_file_all_incomplete
        split: option.splits sum.splits if_splits)
next
  case (CompleteUpload i today now)
  have *: "all_incomplete (st\<lparr>assets := AList.update i (a\<lparr>num_parts := n\<rparr>) (assets st)\<rparr>)"
    if "map_of (assets st) i = Some a" for a n
    using incomplete_update [OF assms that, of "a\<lparr>num_parts := n\<rparr>"]
    by (simp add: all_incomplete_def)
  show ?thesis
    using CompleteUpload assms
    by (auto simp: complete_realtime_upload_def Let_def dest!: * dest: assemble_file_all_incomplete
        split: option.splits sum.splits)
qed

text \<open>
  C6, where it fails. \<^verbatim>\<open>upload_part\<close> does not look at the complete flag: for a
  registry entry whose flag is set it stages the part and records it in
  \<open>parts_received\<close>, and answers 200.
\<close>

theorem upload_to_complete_asset_counterexample:
  "map_option complete (map_of (assets done_state) ''p1'') = Some True
   \<and> fst (upload_part done_state ''p1'' (Some (ascii ''1'')) [[9]] ''2026-01-01'' ''t2'') = Bare 200
   \<and> map_option parts_received (map_of (assets done_state) ''p1'') = Some []
   \<and> map_option parts_received
        (map_of (assets (snd (upload_part done_state ''p1'' (Some (ascii ''1'')) [[9]] ''2026-01-01'' ''t2''))) ''p1'')
       = Some [(1, 1)]
   \<and> parts_store (snd (upload_part done_state ''p1'' (Some (ascii ''1'')) [[9]] ''2026-01-01'' ''t2''))
       = [(''p1'', [(''000001'', [9])])]"
  by code_simp

text \<open>
  C6, amended. Requests keep the registry free of completed entries: the assembly that
  sets the flag removes the entry in the same step. A part upload for an asset that a
  request has just assembled therefore finds no entry: it is answered 404 (400 when
  \<^verbatim>\<open>int()\<close> refuses its \<^verbatim>\<open>part\<close> parameter, which is read first), and the state,
  staging area included, is unchanged. The instance that follows completes the clip with
  its third part and then uploads to it again, once with the parameter \<^verbatim>\<open>2\<close> and once
  with \<^verbatim>\<open>%1F1\<close>.
\<close>

theorem completed_assets_leave_registry:
  assumes "all_incomplete st"
  shows "all_incomplete (snd (step st r))
       \<and> (addressed asset_id r \<and> uploads (snd (step st r)) \<noteq> uploads st \<longrightarrow>
            map_of (assets (snd (step st r))) asset_id = None
          \<and> upload_part (snd (step st r)) asset_id q body today now
              = (if part_param q = None then Bare 400 else Bare 404, snd (step st r)))"
proof -
  have "upload_part st' asset_id q body today now = (if part_param q = None then Bare 400 else Bare 404, st')"
    if "map_of (assets st') asset_id = None" for st'
    using that by (simp add: upload_part_def split: option.splits)
  then show ?thesis
    using step_all_incomplete [OF assms, of r] step_assembles_removes [of asset_id r st]
    by blast
qed

theorem completed_assets_leave_registry_witness:
  "all_incomplete two_of_three
   \<and> uploads two_of_three = []
   \<and> uploads (snd (step two_of_three (UploadPart ''a1'' (Some (ascii ''3'')) [[30]] ''2026-01-01'' ''t3'')))
       = [((''2026-01-01'', ''clip.mov''), [10, 11, 20, 21, 30])]
   \<and> all_incomplete (snd (step two_of_three (UploadPart ''a1'' (Some (ascii ''3'')) [[30]] ''2026-01-01'' ''t3'')))
   \<and> map_of (assets (snd (step two_of_three (UploadPart ''a1'' (Some (ascii ''3'')) [[30]] ''2026-01-01'' ''t3'')))) ''a1'' = None
   \<and> upload_part (snd (step two_of_three (UploadPart ''a1'' (Some (ascii ''3'')) [[30]] ''2026-01-01'' ''t3'')))
        ''a1'' (Some (ascii ''2'')) [[99]] ''2026-01-01'' ''t4''
       = (Bare 404, snd (step two_of_three (UploadPart ''a1'' (Some (ascii ''3'')) [[30]] ''2026-01-01'' ''t3'')))
   \<and> upload_part (snd (step two_of_three (UploadPart ''a1'' (Some (ascii ''3'')) [[30]] ''2026-01-01'' ''t3'')))
        ''a1'' (Some [31, 49]) [[99]] ''2026-01-01'' ''t4''
       = (Bare 400, snd (step two_of_three (UploadPart ''a1'' (Some (ascii ''3'')) [[30]] ''2026-01-01'' ''t3'')))"
proof -
  have inv: "all_incomplete two_of_three"
    by code_simp
  have u0: "uploads two_of_three = []"
    by code_simp
  have u1: "uploads (snd (step two_of_three (UploadPart ''a1'' (Some (ascii ''3'')) [[30]] ''2026-01-01'' ''t3'')))
       = [((''2026-01-01'', ''clip.mov''), [10, 11, 20, 21, 30])]"
    by code_simp
  have ad: "addressed ''a1'' (UploadPart ''a1'' (Some (ascii ''3'')) [[30]] ''2026-01-01'' ''t3'')"
    by simp
  show ?thesis
    using completed_assets_leave_registry [OF inv, of "UploadPart ''a1'' (Some (ascii ''3'')) [[30]] ''2026-01-01'' ''t3''"
        "''a1''" "Some (ascii ''2'')" "[[99]]" "''2026-01-01''" "''t4''"]
      completed_assets_leave_registry [OF inv, of "UploadPart ''a1'' (Some (ascii ''3'')) [[30]] ''2026-01-01'' ''t3''"
        "''a1''" "Some [31, 49]" "[[99]]" "''2026-01-01''" "''t4''"]
      inv u0 u1 ad part_param_2 part_param_separator
    by simp
qed

section \<open>Zero-padded part names\<close>

lemma length_fixed_width [simp]: "length (fixed_width w m) = w"
  by (induction w arbitrary: m) auto

lemma digit_char_0: "digit_char 0 = CHR ''0''"
  by code_simp

lemma fixed_width_zero: "fixed_width w 0 = replicate w CHR ''0''"
  by (induction w) (auto simp: digit_char_0 replicate_append_same)

lemma zfill_dec: "m < 10 ^ w \<Longrightarrow> 0 < w \<Longrightarrow> zfill w (dec m) = fixed_width w m"
proof (induction m arbitrary: w rule: dec.induct)
  case (1 m)
  from "1.prems" obtain v where w: "w = Suc v"
    by (cases w) auto
  have v: "0 < v" if "\<not> m < 10"
    using that "1.prems" w by (cases v) auto
  show ?case
  proof (cases "m < 10")
    case True
    then show ?thesis
      by (simp add: dec.simps [of m] zfill_def w fixed_width_zero)
  next
    case False
    have small: "m div 10 < 10 ^ v"
      using "1.prems" w by (simp add: less_mult_imp_div_less)
    have "zfill w (dec m) = zfill v (dec (m div 10)) @ [digit_char (m mod 10)]"
      using False by (simp add: dec.simps [of m] zfill_def w)
    also have "zfill v (dec (m div 10)) = fixed_width v (m div 10)"
      using "1.IH" [OF False small v [OF False]] .
    finally show ?thesis
      by (simp add: w)
  qed
qed

lemma snoc_less_snoc:
  "length xs = length ys \<Longrightarrow> (xs @ [a] < ys @ [b]) = (xs < ys \<or> xs = ys \<and> a < b)"
  for xs ys :: "'a::linorder list"
  by (induction xs ys rule: list_induct2) auto

lemma digit_char_less: "d < 10 \<Longrightarrow> e < 10 \<Longrightarrow> (digit_char d < digit_char e) = (d < e)"
  by (simp add: digit_char_def less_char_def)

lemma digits_less: "(m < k) = (m div 10 < k div 10 \<or> m div 10 = k div 10 \<and> m mod 10 < k mod 10)"
  for m k :: nat
proof -
  define qm rm qk rk where "qm = m div 10" and "rm = m mod 10" and "qk = k div 10" and "rk = k mod 10"
  have "m = 10 * qm + rm" "rm < 10" "k = 10 * qk + rk" "rk < 10"
    by (simp_all add: qm_def rm_def qk_def rk_def)
  then have "(m < k) = (qm < qk \<or> qm = qk \<and> rm < rk)"
    by linarith
  then show ?thesis
    by (simp add: qm_def rm_def qk_def rk_def)
qed

lemma fixed_width_less:
  "m < 10 ^ w \<Longrightarrow> k < 10 ^ w \<Longrightarrow> (fixed_width w m < fixed_width w k) = (m < k)"
proof (induction w arbitrary: m k)
  case 0
  then show ?case by simp
next
  case (Suc w)
  have small: "m div 10 < 10 ^ w" "k div 10 < 10 ^ w"
    using Suc.prems by (simp_all add: less_mult_imp_div_less)
  have inj: "(fixed_width w (m div 10) = fixed_width w (k div 10)) = (m div 10 = k div 10)"
    using Suc.IH [OF small] Suc.IH [OF small(2) small(1)]
    by (metis less_irrefl linorder_neqE_nat)
  show ?case
    using Suc.IH [OF small] inj digits_less [of m k]
    by (simp add: snoc_less_snoc digit_char_less)
qed

lemma fmt_06d_less:
  assumes "0 \<le> i" "i \<le> 999999" "0 \<le> j" "j \<le> 999999"
  shows "(fmt_06d i < fmt_06d j) = (i < j)"
proof -
  have "nat i < 10 ^ 6" "nat j < 10 ^ 6"
    using assms by simp_all
  then have "(fixed_width 6 (nat i) < fixed_width 6 (nat j)) = (nat i < nat j)"
      and "zfill 6 (dec (nat i)) = fixed_width 6 (nat i)"
      and "zfill 6 (dec (nat j)) = fixed_width 6 (nat j)"
    by (simp_all add: fixed_width_less zfill_dec)
  then show ?thesis
    using assms by (auto simp: fmt_06d_def)
qed

text \<open>Beyond six digits the order of the names is no longer the order of the numbers.\<close>

lemma fmt_06d_seven_digits: "fmt_06d 1000000 < fmt_06d 999999"
  by (simp add: fmt_06d_def zfill_def dec.simps digit_char_def less_char_def)

lemma fmt_06d_inj:
  assumes "0 \<le> i" "i \<le> 999999" "0 \<le> j" "j \<le> 999999" "fmt_06d i = fmt_06d j"
  shows "i = j"
  using fmt_06d_less [OF assms(1-4)] fmt_06d_less [OF assms(3,4,1,2)] assms(5)
  by (metis less_irrefl linorder_neqE_linordered_idom)

section \<open>Deliveries of parts\<close>

lemma is_deliveryE:
  assumes "is_delivery asset_id r"
  obtains q body today now where "r = UploadPart asset_id q body today now"
    "part_param q = Some (part_no r)" "body_of r = concat body"
  using assms by (cases r) auto

lemma keys_fold_record:
  "fst ` set (fold record_part rs recv) = fst ` set recv \<union> part_no ` set rs"
  by (induction rs arbitrary: recv) (auto simp: record_part_def dom_update)

lemma distinct_fold_record:
  "distinct (map fst recv) \<Longrightarrow> distinct (map fst (fold record_part rs recv))"
  by (induction rs arbitrary: recv) (auto simp: record_part_def distinct_update)

lemma keys_fold_stage:
  "fst ` set (fold stage rs dir) = fst ` set dir \<union> (\<lambda>r. fmt_06d (part_no r)) ` set rs"
  by (induction rs arbitrary: dir) (auto simp: stage_def dom_update)

lemma distinct_fold_stage:
  "distinct (map fst dir) \<Longrightarrow> distinct (map fst (fold stage rs dir))"
  by (induction rs arbitrary: dir) (auto simp: stage_def distinct_update)

lemma length_keys: "distinct (map fst al) \<Longrightarrow> length al = card (fst ` set al)"
  using distinct_card [of "map fst al"] by simp

lemma staged_after_update [simp]:
  "staged (st\<lparr>parts_store := AList.update asset_id dir (parts_store st), assets := al\<rparr>) asset_id = dir"
  by (simp add: staged_def update_conv')

lemma run_staging:
  assumes "map_of (assets st) asset_id = Some a" "\<not> is_realtime a"
    and "distinct (map fst (parts_received a))"
    and "int (card (fst ` set (parts_received a) \<union> part_no ` set rs)) < num_parts a"
    and "\<forall>r \<in> set rs. is_delivery asset_id r"
  shows "map_of (assets (run st rs)) asset_id
           = Some (a\<lparr>parts_received := fold record_part rs (parts_received a)\<rparr>)
       \<and> staged (run st rs) asset_id = fold stage rs (staged st asset_id)
       \<and> uploads (run st rs) = uploads st
       \<and> responses st rs = replicate (length rs) (Bare 200)"
  using assms
proof (induction rs arbitrary: st a)
  case Nil
  then show ?case by simp
next
  case (Cons r rs)
  from Cons.prems(5) have del: "is_delivery asset_id r" and rest: "\<forall>r \<in> set rs. is_delivery asset_id r"
    by simp_all
  from del obtain q body today now where r: "r = UploadPart asset_id q body today now"
    "part_param q = Some (part_no r)" "body_of r = concat body"
    by (rule is_deliveryE)
  let ?recv = "AList.update (part_no r) (length (concat body)) (parts_received a)"
  let ?a1 = "a\<lparr>parts_received := ?recv\<rparr>"
  let ?st1 = "st\<lparr>parts_store := AList.update asset_id
                       (AList.update (fmt_06d (part_no r)) (concat body) (staged st asset_id)) (parts_store st),
                   assets := AList.update asset_id ?a1 (assets st)\<rparr>"
  have d1: "distinct (map fst ?recv)"
    using Cons.prems(3) by (rule distinct_update)
  have "fst ` set ?recv \<subseteq> fst ` set (parts_received a) \<union> part_no ` set (r # rs)"
    by (auto simp: dom_update)
  then have "card (fst ` set ?recv) \<le> card (fst ` set (parts_received a) \<union> part_no ` set (r # rs))"
    by (intro card_mono) auto
  then have small: "int (length ?recv) < num_parts a"
    using Cons.prems(4) length_keys [OF d1] by simp
  have step: "upload_part st asset_id q body today now = (Bare 200, ?st1)"
    using upload_part_staged [OF Cons.prems(1) r(2), of body today now] small by simp
  have a1: "map_of (assets ?st1) asset_id = Some ?a1" "\<not> is_realtime ?a1"
    "distinct (map fst (parts_received ?a1))"
    using Cons.prems(2) d1 by (simp_all add: update_conv')
  have "fst ` set (parts_received ?a1) \<union> part_no ` set rs
      = fst ` set (parts_received a) \<union> part_no ` set (r # rs)"
    by (auto simp: dom_update)
  then have c1: "int (card (fst ` set (parts_received ?a1) \<union> part_no ` set rs)) < num_parts ?a1"
    using Cons.prems(4) by simp
  have run: "run st (r # rs) = run ?st1 rs"
    using r(1) step by simp
  have resp: "responses st (r # rs) = Bare 200 # responses ?st1 rs"
    using r(1) step by simp
  show ?case
    using Cons.IH [OF a1 c1 rest] r(3)
    unfolding run resp by (simp add: record_part_def stage_def)
qed

lemma last_body_snoc:
  "last_body (rs @ [r]) i = (if part_no r = i then body_of r else last_body rs i)"
  by (simp add: last_body_def)

lemma map_of_fold_stage:
  assumes "\<forall>r \<in> set rs. 0 \<le> part_no r \<and> part_no r \<le> 999999" "0 \<le> i" "i \<le> 999999"
  shows "map_of (fold stage rs dir) (fmt_06d i)
          = (if i \<in> part_no ` set rs then Some (last_body rs i) else map_of dir (fmt_06d i))"
  using assms(1)
proof (induction rs rule: rev_induct)
  case Nil
  then show ?case by simp
next
  case (snoc r rs)
  have same: "(fmt_06d (part_no r) = fmt_06d i) = (part_no r = i)"
    using snoc.prems assms(2,3) fmt_06d_inj [of "part_no r" i] by auto
  show ?case
    using snoc same
    by (auto simp: stage_def update_conv' last_body_snoc)
qed

lemma sorted_fmt: "n \<le> 999999 \<Longrightarrow> sorted_wrt (<) (map fmt_06d [1 .. n])"
proof -
  assume n: "n \<le> 999999"
  have "sorted_wrt (\<lambda>i j. fmt_06d i < fmt_06d j) [1 .. n]"
  proof (rule sorted_wrt_mono_rel [of _ "(<)"])
    show "sorted_wrt (<) [1 .. n]" by simp
    show "fmt_06d i < fmt_06d j" if "i \<in> set [1 .. n]" "j \<in> set [1 .. n]" "i < j" for i j
      using that n fmt_06d_less [of i j] by simp
  qed
  then show ?thesis
    by (simp add: sorted_wrt_map)
qed

lemma sorted_keys_unique:
  assumes "distinct (map fst dir)" "fst ` set dir = fmt_06d ` {1 .. n}" "n \<le> 999999"
  shows "map fst (sort_key fst dir) = map fmt_06d [1 .. n]"
proof (rule sorted_distinct_set_unique)
  show "sorted (map fst (sort_key fst dir))"
    by (rule sorted_sort_key)
  have "inj_on fst (set dir)"
    using assms(1) by (simp add: distinct_map)
  then show "distinct (map fst (sort_key fst dir))"
    using assms(1) by (simp add: distinct_map)
  show "sorted (map fmt_06d [1 .. n])" "distinct (map fmt_06d [1 .. n])"
    using sorted_fmt [OF assms(3)] by (simp_all add: strict_sorted_iff)
  show "set (map fst (sort_key fst dir)) = set (map fmt_06d [1 .. n])"
    using assms(2) by simp
qed

lemma values_by_key:
  assumes "distinct (map fst dir)"
  shows "map snd (sort_key fst dir) = map (\<lambda>k. the (map_of dir k)) (map fst (sort_key fst dir))"
proof -
  have "snd kv = the (map_of dir (fst kv))" if "kv \<in> set (sort_key fst dir)" for kv
  proof -
    from that have "(fst kv, snd kv) \<in> set dir"
      by (simp only: set_sort prod.collapse)
    then have "map_of dir (fst kv) = Some (snd kv)"
      using assms by simp
    then show ?thesis by simp
  qed
  then have "map snd (sort_key fst dir) = map (\<lambda>kv. the (map_of dir (fst kv))) (sort_key fst dir)"
    by (intro map_cong [OF refl]) simp
  then show ?thesis
    by (simp add: comp_def)
qed

lemma staged_content:
  assumes "\<forall>r \<in> set rs. 0 \<le> part_no r \<and> part_no r \<le> 999999"
    and "part_no ` set rs = {1 .. n}" "n \<le> 999999"
  shows "concat (map snd (sort_key fst (fold stage rs []))) = concat (map (last_body rs) [1 .. n])"
proof -
  let ?dir = "fold stage rs []"
  have d: "distinct (map fst ?dir)"
    by (rule distinct_fold_stage) simp
  have "fst ` set ?dir = fmt_06d ` part_no ` set rs"
    by (simp add: keys_fold_stage image_image)
  then have keys: "map fst (sort_key fst ?dir) = map fmt_06d [1 .. n]"
    using sorted_keys_unique [OF d _ assms(3)] assms(2) by simp
  have "the (map_of ?dir (fmt_06d i)) = last_body rs i" if "i \<in> set [1 .. n]" for i
    using that assms map_of_fold_stage [OF assms(1), of i "[]"] by simp
  then have A: "map (\<lambda>i. the (map_of ?dir (fmt_06d i))) [1 .. n] = map (last_body rs) [1 .. n]"
    by (intro map_cong [OF refl])
  have B: "map snd (sort_key fst ?dir) = map (\<lambda>i. the (map_of ?dir (fmt_06d i))) [1 .. n]"
    using values_by_key [OF d] keys by (simp add: comp_def)
  show ?thesis
    by (simp only: A B)
qed

lemma run_absent:
  assumes "map_of (assets st) asset_id = None" "\<forall>r \<in> set rs. addressed asset_id r"
  shows "run st rs = st"
  using assms by (induction rs) (simp_all add: step_absent_quiet)

lemma is_delivery_addressed: "is_delivery asset_id r \<Longrightarrow> addressed asset_id r"
  by (cases r) auto

lemma responses_append: "responses st (rs @ rs') = responses st rs @ responses (run st rs) rs'"
  by (induction rs arbitrary: st) auto

lemma delivery_absent:
  assumes "map_of (assets st) asset_id = None" "is_delivery asset_id r"
  shows "step st r = (Bare 404, st)"
  using assms by (cases r) (auto simp: upload_part_def split: option.splits)

lemma responses_absent:
  assumes "map_of (assets st) asset_id = None" "\<forall>r \<in> set rs. is_delivery asset_id r"
  shows "responses st rs = replicate (length rs) (Bare 404)"
  using assms by (induction rs) (simp_all add: delivery_absent)

lemma first_completion:
  assumes "part_no ` set rs = S" "S \<noteq> {}"
  shows "\<exists>pre d post. rs = pre @ d # post \<and> part_no d \<notin> part_no ` set pre
            \<and> part_no ` set (pre @ [d]) = S"
  using assms
proof (induction rs rule: rev_induct)
  case Nil
  then show ?case by simp
next
  case (snoc x xs)
  show ?case
  proof (cases "part_no ` set xs = S")
    case True
    from snoc.IH [OF True snoc.prems(2)] obtain pre d post where
      "xs = pre @ d # post" "part_no d \<notin> part_no ` set pre" "part_no ` set (pre @ [d]) = S"
      by blast
    then have "xs @ [x] = pre @ d # (post @ [x])" by simp
    with \<open>part_no d \<notin> part_no ` set pre\<close> \<open>part_no ` set (pre @ [d]) = S\<close> show ?thesis
      by blast
  next
    case False
    then have "part_no x \<notin> part_no ` set xs"
      using snoc.prems(1) by auto
    then show ?thesis
      using snoc.prems(1) by (intro exI [of _ xs] exI [of _ x] exI [of _ "[]"]) simp
  qed
qed

lemma fold_snoc: "fold f (xs @ [x]) s = f x (fold f xs s)"
  by simp

lemma deliveries_assembled:
  assumes reg: "map_of (assets st) asset_id = Some a" "\<not> is_realtime a" "\<not> complete a"
      "parts_received a = []" "staged st asset_id = []"
    and n: "num_parts a = n" "n \<le> 999999"
    and del: "\<forall>r \<in> set (pre @ d # post). is_delivery asset_id r"
    and first: "part_no d \<notin> part_no ` set pre"
    and full: "part_no ` set (pre @ [d]) = {1 .. n}"
  shows "\<exists>today out. uploads (run st (pre @ d # post))
            = uploads st @ [((today, out), concat (map (last_body (pre @ [d])) [1 .. n]))]
          \<and> responses st (pre @ d # post)
              = replicate (length pre + 1) (Bare 200) @ replicate (length post) (Bare 404)
          \<and> run st (pre @ d # post) = run st (pre @ [d])"
proof -
  have "part_no d \<in> {1 .. n}"
    using full by auto
  then have n1: "1 \<le> n"
    by simp
  have "part_no ` set pre \<subset> {1 .. n}"
    using first full by auto
  then have "card (part_no ` set pre) < card {1 .. n}"
    by (intro psubset_card_mono) simp_all
  then have notyet: "int (card (fst ` set (parts_received a) \<union> part_no ` set pre)) < num_parts a"
    using reg(4) n(1) by simp
  have dpre: "\<forall>r \<in> set pre. is_delivery asset_id r" and dd: "is_delivery asset_id d"
    and dpost: "\<forall>r \<in> set post. is_delivery asset_id r"
    using del by simp_all
  let ?s1 = "run st pre"
  let ?a1 = "a\<lparr>parts_received := fold record_part pre []\<rparr>"
  have s1: "map_of (assets ?s1) asset_id = Some ?a1" "staged ?s1 asset_id = fold stage pre []"
    "uploads ?s1 = uploads st" "responses st pre = replicate (length pre) (Bare 200)"
    using run_staging [OF reg(1,2) _ notyet dpre] reg(4,5) by simp_all
  from dd obtain q body today now where d: "d = UploadPart asset_id q body today now"
    "part_param q = Some (part_no d)" "body_of d = concat body"
    by (rule is_deliveryE)
  let ?recv = "AList.update (part_no d) (length (concat body)) (parts_received ?a1)"
  have "distinct (map fst ?recv)"
    by (intro distinct_update) (simp add: distinct_fold_record)
  then have "length ?recv = card (fst ` set ?recv)"
    by (rule length_keys)
  also have "fst ` set ?recv = part_no ` set (pre @ [d])"
    by (auto simp: dom_update keys_fold_record)
  finally have "int (length ?recv) = n"
    using full n1 by simp
  then have ready: "num_parts ?a1 \<le> int (length ?recv)"
    using n(1) by simp
  have inc: "\<not> complete ?a1" "\<not> is_realtime ?a1"
    using reg(2,3) by simp_all
  have "\<exists>s2. upload_part ?s1 asset_id q body today now = (Bare 200, s2)
    \<and> uploads s2 = uploads ?s1 @ [((today, resolve_output (names_in ?s1 today) (name ?a1)),
        concat (map snd (sort_key fst (AList.update (fmt_06d (part_no d)) (concat body) (staged ?s1 asset_id)))))]
    \<and> map_of (assets s2) asset_id = None"
  proof (rule upload_part_assembled [OF s1(1) d(2) inc ready, of today now], intro exI conjI)
    fix s2
    assume "upload_part ?s1 asset_id q body today now = (Bare 200, s2)"
    then show "upload_part ?s1 asset_id q body today now = (Bare 200, s2)" .
    assume "uploads s2 = uploads ?s1 @ [((today, resolve_output (names_in ?s1 today) (name ?a1)),
        concat (map snd (sort_key fst (AList.update (fmt_06d (part_no d)) (concat body) (staged ?s1 asset_id)))))]"
    then show "uploads s2 = uploads ?s1 @ [((today, resolve_output (names_in ?s1 today) (name ?a1)),
        concat (map snd (sort_key fst (AList.update (fmt_06d (part_no d)) (concat body) (staged ?s1 asset_id)))))]" .
    assume "map_of (assets s2) asset_id = None"
    then show "map_of (assets s2) asset_id = None" .
  qed
  then obtain s2 where s2: "upload_part ?s1 asset_id q body today now = (Bare 200, s2)"
    "uploads s2 = uploads ?s1 @ [((today, resolve_output (names_in ?s1 today) (name ?a1)),
        concat (map snd (sort_key fst (AList.update (fmt_06d (part_no d)) (concat body) (staged ?s1 asset_id)))))]"
    "map_of (assets s2) asset_id = None"
    by (elim exE conjE)
  have dir: "AList.update (fmt_06d (part_no d)) (concat body) (staged ?s1 asset_id) = fold stage (pre @ [d]) []"
    using s1(2) d(3) by (simp add: stage_def)
  have range: "\<forall>r \<in> set (pre @ [d]). 0 \<le> part_no r \<and> part_no r \<le> 999999"
  proof
    fix r assume "r \<in> set (pre @ [d])"
    then have "part_no r \<in> {1 .. n}"
      using full by blast
    then show "0 \<le> part_no r \<and> part_no r \<le> 999999"
      using n(2) by simp
  qed
  have content: "concat (map snd (sort_key fst (fold stage (pre @ [d]) [])))
      = concat (map (last_body (pre @ [d])) [1 .. n])"
    using staged_content [OF range full n(2)] .
  have "run st (pre @ d # post) = run (snd (step ?s1 d)) post"
    by (simp add: run_append)
  also have "snd (step ?s1 d) = s2"
    using d(1) s2(1) by simp
  also have "run s2 post = s2"
    using run_absent [OF s2(3)] dpost is_delivery_addressed by blast
  finally have all: "run st (pre @ d # post) = s2" .
  have upto: "run st (pre @ [d]) = s2"
    using d(1) s2(1) by (simp add: run_append)
  have sd: "step ?s1 d = (Bare 200, s2)"
    using d(1) s2(1) by simp
  have late: "responses s2 post = replicate (length post) (Bare 404)"
    using responses_absent [OF s2(3) dpost] .
  have "responses st (pre @ d # post) = responses st pre @ fst (step ?s1 d) # responses (snd (step ?s1 d)) post"
    by (simp add: responses_append)
  then have resp: "responses st (pre @ d # post)
      = replicate (length pre + 1) (Bare 200) @ replicate (length post) (Bare 404)"
    unfolding sd fst_conv snd_conv late s1(4) by (simp add: replicate_append_same)
  show ?thesis
    using all upto resp s2(2) s1(3) dir content by simp
qed

text \<open>
  C1, where it fails. An asset of one expected part receives part 1 twice, with different
  bytes. The first delivery completes the asset, so the second is answered 404: the
  output file has the bytes of the first delivery, not the final bytes of part 1.
\<close>

theorem late_redelivery_counterexample:
  "expected_parts photo_state ''p1'' = Some 1
   \<and> map part_no late_redelivery = [1, 1]
   \<and> responses photo_state late_redelivery = [Bare 200, Bare 404]
   \<and> uploads (run photo_state late_redelivery) = [((''2026-01-01'', ''photo.jpg''), [1, 2])]
   \<and> concat (map (last_body late_redelivery) [1 .. 1]) = [9]"
  by code_simp

text \<open>
  C1, amended. Take a non-realtime asset as \<open>create_asset\<close> registers it, with \<open>n\<close>
  expected parts (at most 4000) and no staging directory under its fresh id yet, and any
  sequence of part deliveries for it, in any order and with any repetition, whose part
  numbers are exactly 1 to \<open>n\<close>. Then the sequence has a delivery \<open>d\<close>, the first
  arrival of the part that was missing last, and the run adds exactly one output file:
  its bytes are the bytes of the parts 1, 2, ..., \<open>n\<close> in this order, each part with the
  bytes of its last delivery up to \<open>d\<close>. The deliveries up to \<open>d\<close> are answered 200;
  the deliveries after \<open>d\<close> find the asset gone, are answered 404 and change nothing.
  The arrival order does not occur in the result.
\<close>

theorem assembled_in_part_order:
  fixes st0 :: state and body :: create_body and asset_id created :: string and rs :: "request list"
    and st1 n
  defines "st1 \<equiv> snd (create_asset st0 body asset_id created)"
    and "n \<equiv> calc_num_parts (b_filesize body) False"
  assumes batch: "b_is_realtime_upload body \<noteq> Some True"
    and fresh: "map_of (parts_store st0) asset_id = None"
    and del: "\<forall>r \<in> set rs. is_delivery asset_id r"
    and full: "part_no ` set rs = {1 .. n}"
  shows "expected_parts st1 asset_id = Some n
       \<and> (\<exists>pre d post today out.
             rs = pre @ d # post \<and> part_no d \<notin> part_no ` set pre \<and> part_no ` set (pre @ [d]) = {1 .. n}
           \<and> uploads (run st1 rs) = uploads st0 @ [((today, out), concat (map (last_body (pre @ [d])) [1 .. n]))]
           \<and> responses st1 rs = replicate (length pre + 1) (Bare 200) @ replicate (length post) (Bare 404)
           \<and> run st1 rs = run st1 (pre @ [d]))"
proof -
  have rt: "(case b_is_realtime_upload body of None \<Rightarrow> False | Some b \<Rightarrow> b) = False"
    using batch by (auto split: option.splits)
  obtain a where a: "map_of (assets st1) asset_id = Some a" "num_parts a = n" "\<not> is_realtime a"
      "\<not> complete a" "parts_received a = []" "uploads st1 = uploads st0"
      "parts_store st1 = parts_store st0"
    using create_asset_fresh [of st0 body asset_id created] rt unfolding st1_def n_def
    by metis
  have staged0: "staged st1 asset_id = []"
    using a(7) fresh by (simp add: staged_def)
  have n1: "1 \<le> n" and n2: "n \<le> 999999"
    using calc_num_parts_ge1 [of "b_filesize body" False] calc_num_parts_le [of "b_filesize body" False]
    by (simp_all add: n_def)
  then have "{1 .. n} \<noteq> {}"
    by simp
  from first_completion [OF full this] obtain pre d post where
    dec: "rs = pre @ d # post" "part_no d \<notin> part_no ` set pre" "part_no ` set (pre @ [d]) = {1 .. n}"
    by blast
  have del': "\<forall>r \<in> set (pre @ d # post). is_delivery asset_id r"
    using del dec(1) by simp
  obtain today out where "uploads (run st1 (pre @ d # post))
            = uploads st1 @ [((today, out), concat (map (last_body (pre @ [d])) [1 .. n]))]"
      "responses st1 (pre @ d # post)
            = replicate (length pre + 1) (Bare 200) @ replicate (length post) (Bare 404)"
      "run st1 (pre @ d # post) = run st1 (pre @ [d])"
    using deliveries_assembled [OF a(1,3,4,5) staged0 a(2) n2 del' dec(2,3)] by blast
  then have "uploads (run st1 rs) = uploads st0 @ [((today, out), concat (map (last_body (pre @ [d])) [1 .. n]))]"
      "responses st1 rs = replicate (length pre + 1) (Bare 200) @ replicate (length post) (Bare 404)"
      "run st1 rs = run st1 (pre @ [d])"
    using dec(1) a(6) by simp_all
  with dec have "\<exists>pre d post today out.
             rs = pre @ d # post \<and> part_no d \<notin> part_no ` set pre \<and> part_no ` set (pre @ [d]) = {1 .. n}
           \<and> uploads (run st1 rs) = uploads st0 @ [((today, out), concat (map (last_body (pre @ [d])) [1 .. n]))]
           \<and> responses st1 rs = replicate (length pre + 1) (Bare 200) @ replicate (length post) (Bare 404)
           \<and> run st1 rs = run st1 (pre @ [d])"
    by blast
  moreover have "expected_parts st1 asset_id = Some n"
    using a(1,2) by (simp add: expected_parts_def)
  ultimately show ?thesis
    by (rule conjI [rotated])
qed

theorem assembled_in_part_order_witness:
  "b_is_realtime_upload clip_body \<noteq> Some True
   \<and> map_of (parts_store initial_state) ''a1'' = None
   \<and> part_no ` set clip_deliveries = {1 .. 3}
   \<and> expected_parts clip_state ''a1'' = Some 3
   \<and> (\<exists>pre d post today out.
         clip_deliveries = pre @ d # post \<and> part_no d \<notin> part_no ` set pre
       \<and> part_no ` set (pre @ [d]) = {1 .. 3}
       \<and> uploads (run clip_state clip_deliveries)
           = uploads initial_state @ [((today, out), concat (map (last_body (pre @ [d])) [1 .. 3]))]
       \<and> responses clip_state clip_deliveries
           = replicate (length pre + 1) (Bare 200) @ replicate (length post) (Bare 404)
       \<and> run clip_state clip_deliveries = run clip_state (pre @ [d]))
   \<and> uploads (run clip_state clip_deliveries) = [((''2026-01-01'', ''clip.mov''), [10, 11, 20, 21, 30])]
   \<and> responses clip_state clip_deliveries = [Bare 200, Bare 200, Bare 200, Bare 404]"
proof -
  have batch: "b_is_realtime_upload clip_body \<noteq> Some True"
    by (simp add: clip_body_def)
  have fresh: "map_of (parts_store initial_state) ''a1'' = None"
    by (simp add: initial_state_def)
  have n: "calc_num_parts (b_filesize clip_body) False = 3"
    by (simp add: clip_body_def calc_num_parts_def chunk_size_def)
  have p: "part_param (Some (ascii ''1'')) = Some 1" "part_param (Some (ascii ''2'')) = Some 2"
      "part_param (Some (ascii ''3'')) = Some 3"
    by code_simp+
  have del: "\<forall>r \<in> set clip_deliveries. is_delivery ''a1'' r"
    by (simp add: clip_deliveries_def p)
  have "{1 .. 3} = {1, 2, 3::int}"
    by auto
  then have full: "part_no ` set clip_deliveries = {1 .. 3}"
    by (auto simp: clip_deliveries_def p)
  have out: "uploads (run clip_state clip_deliveries) = [((''2026-01-01'', ''clip.mov''), [10, 11, 20, 21, 30])]"
    "responses clip_state clip_deliveries = [Bare 200, Bare 200, Bare 200, Bare 404]"
    by code_simp+
  show ?thesis
    using assembled_in_part_order [of clip_body initial_state "''a1''" clip_deliveries "''t0''"]
      batch fresh del full out
    unfolding n clip_state_def [symmetric]
    by simp
qed

end
